theory Spec2Isabelle
  imports Main
begin

section \<open>Python strings\<close>

text \<open>
  A Python \<open>str\<close> is a sequence of Unicode code points. The analysed documents are mostly
  Arabic, so the model keeps code points (natural numbers) rather than bytes; the literals
  of the source are ASCII and are written through \<open>ascii\<close>.
\<close>

type_synonym codepoint = nat
type_synonym pystr = "codepoint list"

definition ascii :: "string \<Rightarrow> pystr" where
  "ascii s = map of_char s"

text \<open>
  \<open>str.strip()\<close> without argument removes the code points for which
  \<open>Py_UNICODE_ISSPACE\<close> holds, at both ends.
\<close>

definition isspace :: "codepoint \<Rightarrow> bool" where
  "isspace c \<longleftrightarrow>
     (9 \<le> c \<and> c \<le> 13) \<or> (28 \<le> c \<and> c \<le> 32) \<or> c = 133 \<or> c = 160 \<or> c = 5760 \<or>
     (8192 \<le> c \<and> c \<le> 8202) \<or> c = 8232 \<or> c = 8233 \<or> c = 8239 \<or> c = 8287 \<or> c = 12288"

definition lstrip :: "pystr \<Rightarrow> pystr" where
  "lstrip s = dropWhile isspace s"

definition rstrip :: "pystr \<Rightarrow> pystr" where
  "rstrip s = rev (dropWhile isspace (rev s))"

definition strip :: "pystr \<Rightarrow> pystr" where
  "strip s = rstrip (lstrip s)"

section \<open>Constants for parsing\<close>

definition TEXT_START_MARKER :: pystr where
  "TEXT_START_MARKER = ascii ''--- START OF EXTRACTED TEXT ---''"

definition TEXT_END_MARKER :: pystr where
  "TEXT_END_MARKER = ascii ''--- END OF EXTRACTED TEXT ---''"

definition SUMMARY_START_MARKER :: pystr where
  "SUMMARY_START_MARKER = ascii ''--- START OF SUMMARY ---''"

definition SUMMARY_END_MARKER :: pystr where
  "SUMMARY_END_MARKER = ascii ''--- END OF SUMMARY ---''"

section \<open>The regular expression of the response parser\<close>

text \<open>
  The two searches of \<open>analyze_document\<close> have the shape
  \<open>re.search(escape(START) + "(.*?)" + escape(END), text, DOTALL | IGNORECASE)\<close>.
  An escaped marker is a sequence of literals. Under \<open>IGNORECASE\<close> on a \<open>str\<close> pattern a
  literal ASCII letter accepts every code point whose simple lower-case mapping is that
  letter, and the code points the engine lists as equivalent: the long s (383) for \<open>s\<close>,
  the dotted capital I (304) and the dotless i (305) for \<open>i\<close>, the Kelvin sign (8490) for
  \<open>k\<close>. Any other ASCII literal accepts itself only. The markers are ASCII, and
  \<open>literal_ignorecase\<close> is used with ASCII patterns only.
\<close>

definition literal_ignorecase :: "codepoint \<Rightarrow> codepoint \<Rightarrow> bool" where
  "literal_ignorecase p c \<longleftrightarrow>
     (if 65 \<le> p \<and> p \<le> 90 then
        c = p \<or> c = p + 32 \<or> (p = 83 \<and> c = 383) \<or> (p = 73 \<and> (c = 304 \<or> c = 305)) \<or>
        (p = 75 \<and> c = 8490)
      else if 97 \<le> p \<and> p \<le> 122 then
        c = p \<or> c + 32 = p \<or> (p = 115 \<and> c = 383) \<or> (p = 105 \<and> (c = 304 \<or> c = 305)) \<or>
        (p = 107 \<and> c = 8490)
      else c = p)"

text \<open>
  Matching the literals of a marker at the front of the text: the rest of the text after
  the match, or \<open>None\<close>.
\<close>

fun match_literal :: "pystr \<Rightarrow> pystr \<Rightarrow> pystr option" where
  "match_literal [] t = Some t"
| "match_literal (p # ps) [] = None"
| "match_literal (p # ps) (c # cs) =
     (if literal_ignorecase p c then match_literal ps cs else None)"

text \<open>
  The lazy group \<open>(.*?)\<close> followed by the end marker: the group takes no code point if
  the end marker matches here, and otherwise one more code point (any one, under
  \<open>DOTALL\<close>) and tries again. The result is the text of the group.
\<close>

fun lazy_group :: "pystr \<Rightarrow> pystr \<Rightarrow> pystr option" where
  "lazy_group e [] = (if match_literal e [] \<noteq> None then Some [] else None)"
| "lazy_group e (c # cs) =
     (if match_literal e (c # cs) \<noteq> None then Some []
      else map_option ((#) c) (lazy_group e cs))"

text \<open>The whole pattern tried at the front of the text.\<close>

definition match_here :: "pystr \<Rightarrow> pystr \<Rightarrow> pystr \<Rightarrow> pystr option" where
  "match_here s e t =
     (case match_literal s t of None \<Rightarrow> None | Some r \<Rightarrow> lazy_group e r)"

text \<open>
  \<open>re.search\<close> tries the pattern at each position from the left and returns the first
  match; the model returns \<open>group(1)\<close> of that match.
\<close>

fun re_search_group :: "pystr \<Rightarrow> pystr \<Rightarrow> pystr \<Rightarrow> pystr option" where
  "re_search_group s e [] = match_here s e []"
| "re_search_group s e (c # cs) =
     (case match_here s e (c # cs) of
        Some g \<Rightarrow> Some g
      | None \<Rightarrow> re_search_group s e cs)"

section \<open>The response parser\<close>

text \<open>
  Lines 259 to 262 and 269 to 272 of \<open>document_analyzer.py\<close>: the group of the match,
  stripped, or \<open>None\<close> when the pattern does not match.
\<close>

definition extract_between :: "pystr \<Rightarrow> pystr \<Rightarrow> pystr \<Rightarrow> pystr option" where
  "extract_between s e full_response_text =
     (case re_search_group s e full_response_text of
        Some g \<Rightarrow> Some (strip g)
      | None \<Rightarrow> None)"

text \<open>
  Lines 256 to 284: the parsing part of \<open>analyze_document\<close>, a function of the response
  text and the extraction mode. The result is \<open>(extracted_text, summary_text)\<close>.
\<close>

definition parse_response :: "pystr \<Rightarrow> pystr \<Rightarrow> pystr option \<times> pystr option" where
  "parse_response full_response_text extract_mode =
     (let extracted_text = extract_between TEXT_START_MARKER TEXT_END_MARKER full_response_text;
          summary_text =
            (if extract_mode = ascii ''summary''
             then extract_between SUMMARY_START_MARKER SUMMARY_END_MARKER full_response_text
             else None)
      in if extracted_text = None \<and> summary_text = None
         then (if strip full_response_text \<noteq> []
               then (Some (strip full_response_text), summary_text)
               else (extracted_text, summary_text))
         else (extracted_text, summary_text))"


section \<open>Markers in a text, as the specification speaks of them\<close>

text \<open>
  The specification describes the parser by the places where a marker stands in the
  response, up to letter case. \<open>ci_eq marker a\<close> says that \<open>a\<close> is the marker up to letter
  case, \<open>occurs_at marker t i\<close> that the marker stands at index \<open>i\<close> of \<open>t\<close>, and
  \<open>section_found s e t\<close> that \<open>t\<close> holds a start marker with an end marker somewhere after
  its end. These definitions do not mention the search of the source.
\<close>

definition ci_eq :: "pystr \<Rightarrow> pystr \<Rightarrow> bool" where
  "ci_eq marker a = list_all2 literal_ignorecase marker a"

definition occurs_at :: "pystr \<Rightarrow> pystr \<Rightarrow> nat \<Rightarrow> bool" where
  "occurs_at marker t i \<longleftrightarrow>
     i + length marker \<le> length t \<and> ci_eq marker (take (length marker) (drop i t))"

definition section_found :: "pystr \<Rightarrow> pystr \<Rightarrow> pystr \<Rightarrow> bool" where
  "section_found s e t \<longleftrightarrow>
     list_ex (\<lambda>i. occurs_at s t i \<and>
        list_ex (\<lambda>j. occurs_at e t j) [i + length s ..< Suc (length t)])
       [0 ..< Suc (length t)]"

text \<open>Two responses used as examples: the one of the specification, and one in mixed case
  with text around the section.\<close>

definition hello_response :: pystr where
  "hello_response =
     ascii ''--- START OF EXTRACTED TEXT ---\<newline>HELLO\<newline>--- END OF EXTRACTED TEXT ---''"

definition mixed_case_response :: pystr where
  "mixed_case_response =
     ascii ''Here: --- start of Extracted Text ---\<newline>  HELLO \<newline>--- end of extracted text --- bye''"

definition both_sections_response :: pystr where
  "both_sections_response =
     ascii ''--- START OF SUMMARY ---\<newline>short\<newline>--- END OF SUMMARY ---\<newline>\<newline>--- START OF EXTRACTED TEXT ---\<newline> HELLO\<newline>--- END OF EXTRACTED TEXT ---\<newline>''"

section \<open>The prompt\<close>

text \<open>
  Lines 184 to 233 of \<open>analyze_document\<close>. Each template of the source is a triple-quoted
  f-string: a line break after the opening quotes, then the lines of the template, each
  followed by a line break. The model lists the lines, the empty first one too, and
  \<open>unlines\<close> puts the line breaks (code point 10) back. \<open>doc_name\<close> stands for
  \<open>uploaded_file.display_name\<close>.
\<close>

definition unlines :: "pystr list \<Rightarrow> pystr" where
  "unlines ls = concat (map (\<lambda>l. l @ [10]) ls)"

definition text_dir_of :: "pystr \<Rightarrow> pystr" where
  "text_dir_of language =
     (if language = ascii ''arabic'' then ascii ''right-to-left'' else ascii ''left-to-right'')"

definition summary_prompt_lines :: "pystr \<Rightarrow> pystr \<Rightarrow> pystr \<Rightarrow> pystr list" where
  "summary_prompt_lines doc_name language text_dir =
     [[],
      ascii ''Please analyze the attached document ('' @ doc_name @ ascii '') and provide the following in '' @ language @ ascii '':'',
      [],
      ascii ''**Task 1: Extract and Summarize Content**'',
      ascii ''1. Extract all visible text from the document (including text in images if possible).'',
      ascii ''2. Create a comprehensive summary of the document's content.'',
      ascii ''3. Include key points, main ideas, and important details.'',
      ascii ''4. Format the summary in clear, well-structured paragraphs.'',
      ascii ''5. The summary should be approximately 20-30% of the original text length.'',
      ascii ''6. Ensure the text follows '' @ text_dir @ ascii '' direction appropriate for '' @ language @ ascii ''.'',
      [],
      ascii ''**Task 2: Full Text Extraction**'',
      ascii ''1. Extract ALL textual content from the document, including any text visible in images.'',
      ascii ''2. Present the extracted text in a clean, readable format.'',
      ascii ''3. Preserve paragraph breaks and important formatting where possible.'',
      ascii ''4. Ensure the text follows '' @ text_dir @ ascii '' direction appropriate for '' @ language @ ascii ''.'',
      [],
      ascii ''**Output Format:**'',
      ascii ''Please structure your response exactly as follows:'',
      [],
      SUMMARY_START_MARKER,
      ascii ''[Your detailed summary here]'',
      SUMMARY_END_MARKER,
      [],
      TEXT_START_MARKER,
      ascii ''[Full extracted text here]'',
      TEXT_END_MARKER]"

definition full_prompt_lines :: "pystr \<Rightarrow> pystr \<Rightarrow> pystr \<Rightarrow> pystr list" where
  "full_prompt_lines doc_name language text_dir =
     [[],
      ascii ''Please analyze the attached document ('' @ doc_name @ ascii '') and provide the following in '' @ language @ ascii '':'',
      [],
      ascii ''**Task: Full Text Extraction**'',
      ascii ''1. Extract ALL textual content from the document, including any text visible in images.'',
      ascii ''2. Present the extracted text in a clean, readable format.'',
      ascii ''3. Preserve paragraph breaks and important formatting where possible.'',
      ascii ''4. Ensure the text follows '' @ text_dir @ ascii '' direction appropriate for '' @ language @ ascii ''.'',
      ascii ''5. DO NOT summarize or alter the content - provide the complete extracted text only.'',
      [],
      ascii ''**Output Format:**'',
      ascii ''Please structure your response exactly as follows:'',
      [],
      TEXT_START_MARKER,
      ascii ''[Full extracted text here]'',
      TEXT_END_MARKER]"

definition build_prompt :: "pystr \<Rightarrow> pystr \<Rightarrow> pystr \<Rightarrow> pystr" where
  "build_prompt doc_name extract_mode language =
     (let text_dir = text_dir_of language
      in if extract_mode = ascii ''summary''
         then unlines (summary_prompt_lines doc_name language text_dir)
         else unlines (full_prompt_lines doc_name language text_dir))"

text \<open>
  Occurrences of a marker in a prompt are exact (the prompt is written by the program):
  \<open>starts_with\<close> is \<open>str.startswith\<close>, and \<open>count_occurrences m t\<close> is the number of
  indices of \<open>t\<close> at which \<open>m\<close> stands.
\<close>

fun starts_with :: "pystr \<Rightarrow> pystr \<Rightarrow> bool" where
  "starts_with [] t = True"
| "starts_with (p # ps) [] = False"
| "starts_with (p # ps) (c # cs) = (p = c \<and> starts_with ps cs)"

fun count_occurrences :: "pystr \<Rightarrow> pystr \<Rightarrow> nat" where
  "count_occurrences m [] = (if starts_with m [] then 1 else 0)"
| "count_occurrences m (c # cs) =
     (if starts_with m (c # cs) then 1 else 0) + count_occurrences m cs"

text \<open>A file name that holds a marker.\<close>

definition marker_file_name :: pystr where
  "marker_file_name = TEXT_START_MARKER @ ascii ''.pdf''"

section \<open>Choosing and writing the content\<close>

text \<open>
  Line 328 of \<open>document_analyzer.py\<close> and line 214 of \<open>app.py\<close>:
  \<open>summary_text if mode == "summary" and summary_text else extracted_text\<close>. A value that
  is \<open>None\<close> or the empty string is false in a condition.
\<close>

definition truthy :: "pystr option \<Rightarrow> bool" where
  "truthy x = (case x of None \<Rightarrow> False | Some s \<Rightarrow> s \<noteq> [])"

definition content_to_save :: "pystr \<Rightarrow> pystr option \<Rightarrow> pystr option \<Rightarrow> pystr option" where
  "content_to_save mode extracted_text summary_text =
     (if mode = ascii ''summary'' \<and> truthy summary_text then summary_text else extracted_text)"

text \<open>A response of the model whose summary section is empty.\<close>

definition empty_summary_response :: pystr where
  "empty_summary_response =
     SUMMARY_START_MARKER @ [10] @ SUMMARY_END_MARKER @ [10, 10] @
     TEXT_START_MARKER @ [10] @ ascii ''FULL TEXT'' @ [10] @ TEXT_END_MARKER @ [10]"

text \<open>
  The Word document of \<open>save_to_word_file\<close>, as far as the program sets it: the alignment
  of the style \<open>Normal\<close>, and the paragraphs with their alignment and runs. An alignment
  that was never set is \<open>None\<close>, the default of the library, under which a paragraph
  follows its style.
\<close>

datatype WD_ALIGN_PARAGRAPH = LEFT | CENTER | RIGHT | JUSTIFY

record run =
  run_text :: pystr
  run_bold :: "bool option"
  run_size :: "nat option"

record docx_paragraph =
  alignment :: "WD_ALIGN_PARAGRAPH option"
  runs :: "run list"

record document =
  normal_alignment :: "WD_ALIGN_PARAGRAPH option"
  paragraphs :: "docx_paragraph list"

definition Document :: document where
  "Document = \<lparr>normal_alignment = None, paragraphs = []\<rparr>"

definition add_paragraph :: "docx_paragraph \<Rightarrow> document \<Rightarrow> document" where
  "add_paragraph p doc = doc\<lparr>paragraphs := paragraphs doc @ [p]\<rparr>"

text \<open>\<open>content.split('\n')\<close>: the chunks between line breaks; never the empty list.\<close>

fun split_nl :: "pystr \<Rightarrow> pystr list" where
  "split_nl [] = [[]]"
| "split_nl (c # cs) =
     (if c = 10 then [] # split_nl cs
      else (case split_nl cs of
              [] \<Rightarrow> [[c]]
            | chunk # chunks \<Rightarrow> (c # chunk) # chunks))"

text \<open>Lines 154 to 159: the loop over the chunks of the content.\<close>

fun add_content :: "bool \<Rightarrow> pystr list \<Rightarrow> document \<Rightarrow> document" where
  "add_content rtl [] doc = doc"
| "add_content rtl (para # rest) doc =
     add_content rtl rest
       (if strip para \<noteq> []
        then add_paragraph
               \<lparr>alignment = (if rtl then Some RIGHT else None),
                runs = [\<lparr>run_text = para, run_bold = None, run_size = None\<rparr>]\<rparr> doc
        else doc)"

text \<open>Lines 132 to 159: the document that \<open>doc.save\<close> writes.\<close>

definition word_document :: "pystr \<Rightarrow> pystr \<Rightarrow> pystr \<Rightarrow> document" where
  "word_document content title language =
     (let rtl = (language = ascii ''arabic'');
          doc = (if rtl then Document\<lparr>normal_alignment := Some RIGHT\<rparr> else Document);
          title_paragraph =
            \<lparr>alignment = Some CENTER,
             runs = [\<lparr>run_text = title, run_bold = Some True, run_size = Some 16\<rparr>]\<rparr>;
          doc = add_paragraph title_paragraph doc;
          doc = add_paragraph \<lparr>alignment = None, runs = []\<rparr> doc
      in add_content rtl (split_nl content) doc)"

text \<open>
  \<open>save_to_word_file\<close>, lines 118 to 167. \<open>raises\<close> says whether a statement of the
  \<open>try\<close> block (\<open>os.makedirs\<close>, the library, \<open>doc.save\<close>) raises an exception; the
  disk maps a path to the document saved there.
\<close>

definition save_to_word_file ::
  "pystr option \<Rightarrow> pystr \<Rightarrow> pystr \<Rightarrow> pystr \<Rightarrow> bool \<Rightarrow> (pystr \<rightharpoonup> document)
     \<Rightarrow> bool \<times> (pystr \<rightharpoonup> document)" where
  "save_to_word_file content output_path title language raises disk =
     (case content of
        None \<Rightarrow> (False, disk)
      | Some c \<Rightarrow>
          if raises then (False, disk)
          else (True, disk(output_path \<mapsto> word_document c title language)))"

text \<open>A content of two lines of text around a blank line.\<close>

definition three_chunks :: pystr where
  "three_chunks = ascii ''first line'' @ [10, 32, 9, 10] @ ascii ''second line''"

section \<open>The remote service, the clock and the console\<close>

text \<open>
  The functions of the program call the remote service (\<open>genai.upload_file\<close>,
  \<open>genai.get_file\<close>, \<open>genai.delete_file\<close>, \<open>model.generate_content\<close>), read and
  advance the time (\<open>time.time\<close>, \<open>time.sleep\<close>) and print. They are modelled by explicit
  state passing over a \<open>world\<close>.

  An exception is a value. \<open>exn\<close> stands for the instances of \<open>Exception\<close>, which every
  \<open>except Exception\<close> clause of the program catches; the string is the message. A call of
  the service either raises or returns.
\<close>

datatype exn = Exception string

datatype 'a reply = Raises exn | Returns 'a

text \<open>
  The file object of the service, with the attributes the program reads; \<open>state_name\<close>
  is \<open>uploaded_file.state.name\<close>.
\<close>

record uploaded_file =
  name :: pystr
  display_name :: pystr
  state_name :: string

text \<open>
  What \<open>generate_content\<close> returns, as the program looks at it: \<open>hasattr(response, 'text')\<close>
  is false (and \<open>hasattr(response, 'prompt_feedback')\<close> is the given truth value), or reading
  \<open>response.text\<close> raises an exception that \<open>hasattr\<close> does not catch, or it gives a
  string.
\<close>

datatype response = No_text bool | Text_raises exn | Text pystr

text \<open>The calls that the world records, in the order in which they are made.\<close>

datatype call =
    Upload_file pystr
  | Get_file pystr
  | Delete_file pystr
  | Generate_content pystr pystr
  | Sleep nat

text \<open>The lines the program prints, one constructor for each \<open>print\<close> statement.\<close>

datatype message =
    Uploading pystr
  | File_not_found pystr
  | Uploaded pystr
  | Waiting
  | Timed_out
  | Cleaned_timed_out pystr
  | Delete_timed_out_failed pystr exn
  | State_now string
  | Active
  | Unexpected_state string
  | Cleaned_in_state string pystr
  | Delete_in_state_failed pystr string exn
  | Upload_error int int exn
  | Retrying nat
  | Upload_gave_up
  | Analyzing pystr pystr
  | Sending
  | Parsing
  | No_text_content
  | Prompt_feedback
  | Text_extracted
  | Text_missing
  | Summary_extracted
  | Summary_missing
  | Parse_failed_both
  | Using_full_response
  | Analysis_error exn
  | Deleting pystr
  | Deleted
  | Delete_failed exn
  | Process_failed

text \<open>
  The world. The environment decides, for the \<open>k\<close>-th call of each function of the
  service, what the call does (\<open>upload_reply\<close>, \<open>get_reply\<close>, \<open>delete_reply\<close>,
  \<open>generate_reply\<close>), and how many seconds the \<open>k\<close>-th recorded call takes
  (\<open>duration\<close>); \<open>path_exists\<close> is \<open>os.path.exists\<close>. The clock counts whole seconds.
  \<open>calls\<close> and \<open>printed\<close> grow at the end.
\<close>

record world =
  path_exists :: "pystr \<Rightarrow> bool"
  upload_reply :: "nat \<Rightarrow> uploaded_file reply"
  get_reply :: "nat \<Rightarrow> uploaded_file reply"
  delete_reply :: "nat \<Rightarrow> unit reply"
  generate_reply :: "nat \<Rightarrow> response reply"
  duration :: "nat \<Rightarrow> nat"
  clock :: nat
  calls :: "call list"
  printed :: "message list"

fun is_upload :: "call \<Rightarrow> bool" where
  "is_upload (Upload_file p) = True"
| "is_upload c = False"

fun is_get :: "call \<Rightarrow> bool" where
  "is_get (Get_file n) = True"
| "is_get c = False"

fun is_delete :: "call \<Rightarrow> bool" where
  "is_delete (Delete_file n) = True"
| "is_delete c = False"

fun is_generate :: "call \<Rightarrow> bool" where
  "is_generate (Generate_content p n) = True"
| "is_generate c = False"

text \<open>
  \<open>print\<close>, \<open>time.sleep\<close>, and a call of the service: the call is answered from the
  state before it, then recorded, and the clock advances by its duration.
\<close>

definition py_print :: "message \<Rightarrow> world \<Rightarrow> world" where
  "py_print m w = w\<lparr>printed := printed w @ [m]\<rparr>"

definition sleep :: "nat \<Rightarrow> world \<Rightarrow> world" where
  "sleep secs w = w\<lparr>clock := clock w + secs, calls := calls w @ [Sleep secs]\<rparr>"

definition remote :: "call \<Rightarrow> world \<Rightarrow> world" where
  "remote c w = w\<lparr>clock := clock w + duration w (length (calls w)), calls := calls w @ [c]\<rparr>"

definition upload_file :: "pystr \<Rightarrow> world \<Rightarrow> uploaded_file reply \<times> world" where
  "upload_file path w =
     (upload_reply w (length (filter is_upload (calls w))), remote (Upload_file path) w)"

definition get_file :: "pystr \<Rightarrow> world \<Rightarrow> uploaded_file reply \<times> world" where
  "get_file n w = (get_reply w (length (filter is_get (calls w))), remote (Get_file n) w)"

definition delete_file :: "pystr \<Rightarrow> world \<Rightarrow> unit reply \<times> world" where
  "delete_file n w =
     (delete_reply w (length (filter is_delete (calls w))), remote (Delete_file n) w)"

definition generate_content :: "pystr \<Rightarrow> uploaded_file \<Rightarrow> world \<Rightarrow> response reply \<times> world" where
  "generate_content prompt f w =
     (generate_reply w (length (filter is_generate (calls w))),
      remote (Generate_content prompt (name f)) w)"

text \<open>Lines 61 to 66 of \<open>upload_file_to_gemini\<close>: the cleanup when the processing timed out.\<close>

definition timeout_cleanup :: "uploaded_file \<Rightarrow> world \<Rightarrow> world" where
  "timeout_cleanup f w =
     (case delete_file (name f) (py_print Timed_out w) of
        (Returns u, w') \<Rightarrow> py_print (Cleaned_timed_out (name f)) w'
      | (Raises delete_e, w') \<Rightarrow> py_print (Delete_timed_out_failed (name f) delete_e) w')"

text \<open>
  Lines 59 to 70: the loop that waits while the state is \<open>PROCESSING\<close>. It ends with an
  exception of \<open>get_file\<close>, with the timeout (after the cleanup; the function then returns
  \<open>None\<close>), or with a file in another state. Every iteration sleeps 15 seconds, so the
  loop ends. \<open>clock w - start_time\<close> is \<open>time.time() - start_time\<close>: the clock never runs
  backwards, so the subtraction of natural numbers loses nothing.
\<close>

datatype poll = Poll_raised exn | Poll_timed_out | Poll_done uploaded_file

function wait_while_processing :: "nat \<Rightarrow> uploaded_file \<Rightarrow> world \<Rightarrow> poll \<times> world" where
  "wait_while_processing start_time f w =
     (if state_name f = ''PROCESSING'' then
        if clock w - start_time > 300 then (Poll_timed_out, timeout_cleanup f w)
        else
          (case get_file (name f) (sleep 15 w) of
             (Raises e, w') \<Rightarrow> (Poll_raised e, w')
           | (Returns f', w') \<Rightarrow>
               wait_while_processing start_time f' (py_print (State_now (state_name f')) w'))
      else (Poll_done f, w))"
  by pat_completeness auto
termination
  by (relation "measure (\<lambda>(start_time, f, w). start_time + 316 - clock w)")
     (auto simp: get_file_def remote_def sleep_def py_print_def)

text \<open>
  Lines 54 to 83: the body of the \<open>try\<close> statement, one attempt. It raises, into the
  \<open>except\<close> clause of line 85, when \<open>upload_file\<close> or \<open>get_file\<close> raises, and otherwise
  returns from the function.
\<close>

datatype attempt = Attempt_raised exn | Attempt_returned "uploaded_file option"

text \<open>Lines 77 to 82: the cleanup of a file that ended in a state other than \<open>ACTIVE\<close>.\<close>

definition failed_cleanup :: "uploaded_file \<Rightarrow> world \<Rightarrow> world" where
  "failed_cleanup f w =
     (if state_name f \<noteq> ''DELETED'' then
        (case delete_file (name f) w of
           (Returns u, w') \<Rightarrow> py_print (Cleaned_in_state (state_name f) (name f)) w'
         | (Raises delete_e, w') \<Rightarrow>
             py_print (Delete_in_state_failed (name f) (state_name f) delete_e) w')
      else w)"

text \<open>Lines 54 to 83, with \<open>start_time\<close> read from the clock at line 58.\<close>

definition upload_attempt :: "pystr \<Rightarrow> world \<Rightarrow> attempt \<times> world" where
  "upload_attempt file_path w =
     (case upload_file file_path w of
        (Raises e, w1) \<Rightarrow> (Attempt_raised e, w1)
      | (Returns f, w1) \<Rightarrow>
          (let w2 = py_print Waiting (py_print (Uploaded (name f)) w1)
           in case wait_while_processing (clock w2) f w2 of
                (Poll_raised e, w3) \<Rightarrow> (Attempt_raised e, w3)
              | (Poll_timed_out, w3) \<Rightarrow> (Attempt_returned None, w3)
              | (Poll_done f', w3) \<Rightarrow>
                  if state_name f' = ''ACTIVE''
                  then (Attempt_returned (Some f'), py_print Active w3)
                  else (Attempt_returned None,
                        failed_cleanup f' (py_print (Unexpected_state (state_name f')) w3))))"

text \<open>Lines 52 to 94: the retry loop.\<close>

function upload_loop :: "pystr \<Rightarrow> int \<Rightarrow> nat \<Rightarrow> int \<Rightarrow> world \<Rightarrow> uploaded_file option \<times> world" where
  "upload_loop file_path retries delay attempt w =
     (if attempt < retries then
        (case upload_attempt file_path w of
           (Attempt_returned r, w1) \<Rightarrow> (r, w1)
         | (Attempt_raised e, w1) \<Rightarrow>
             (let w2 = py_print (Upload_error (attempt + 1) retries e) w1
              in if attempt + 1 < retries
                 then upload_loop file_path retries delay (attempt + 1)
                        (sleep delay (py_print (Retrying delay) w2))
                 else (None, py_print Upload_gave_up w2)))
      else (None, w))"
  by pat_completeness auto
termination
  by (relation "measure (\<lambda>(file_path, retries, delay, attempt, w). nat (retries - attempt))") auto

text \<open>\<open>upload_file_to_gemini\<close>, lines 41 to 94.\<close>

definition upload_file_to_gemini :: "pystr \<Rightarrow> int \<Rightarrow> nat \<Rightarrow> world \<Rightarrow> uploaded_file option \<times> world" where
  "upload_file_to_gemini file_path retries delay w =
     (let w1 = py_print (Uploading file_path) w
      in if \<not> path_exists w1 file_path then (None, py_print (File_not_found file_path) w1)
         else upload_loop file_path retries delay 0 w1)"

text \<open>
  Two worlds with the same service: the program changes the clock, the calls and the
  printed lines, never what the environment will answer.
\<close>

definition same_service :: "world \<Rightarrow> world \<Rightarrow> bool" where
  "same_service w w' \<longleftrightarrow>
     path_exists w' = path_exists w \<and> upload_reply w' = upload_reply w \<and>
     get_reply w' = get_reply w \<and> delete_reply w' = delete_reply w \<and>
     generate_reply w' = generate_reply w \<and> duration w' = duration w"

section \<open>Analysis\<close>

text \<open>
  \<open>try\<close> with \<open>except Exception\<close>, and \<open>try\<close> with \<open>finally\<close>: a computation returns
  \<open>Inl e\<close> when it raises \<open>e\<close>. An exception of the \<open>finally\<close> block replaces the outcome
  of the body.
\<close>

definition try_except ::
  "(world \<Rightarrow> (exn + 'a) \<times> world) \<Rightarrow> (exn \<Rightarrow> world \<Rightarrow> (exn + 'a) \<times> world)
     \<Rightarrow> world \<Rightarrow> (exn + 'a) \<times> world" where
  "try_except body handler w =
     (case body w of
        (Inl e, w') \<Rightarrow> handler e w'
      | (Inr v, w') \<Rightarrow> (Inr v, w'))"

definition try_finally ::
  "(world \<Rightarrow> (exn + 'a) \<times> world) \<Rightarrow> (world \<Rightarrow> (exn + unit) \<times> world)
     \<Rightarrow> world \<Rightarrow> (exn + 'a) \<times> world" where
  "try_finally body final w =
     (case body w of
        (r, w') \<Rightarrow>
          (case final w' of
             (Inl e, w'') \<Rightarrow> (Inl e, w'')
           | (Inr u, w'') \<Rightarrow> (r, w'')))"

definition py_prints :: "message list \<Rightarrow> world \<Rightarrow> world" where
  "py_prints ms w = foldl (\<lambda>w m. py_print m w) w ms"

text \<open>The lines printed by the parsing part, lines 261 to 282.\<close>

definition parse_messages :: "pystr \<Rightarrow> pystr \<Rightarrow> message list" where
  "parse_messages full_response_text extract_mode =
     (let text_match = extract_between TEXT_START_MARKER TEXT_END_MARKER full_response_text;
          summary_match =
            (if extract_mode = ascii ''summary''
             then extract_between SUMMARY_START_MARKER SUMMARY_END_MARKER full_response_text
             else None)
      in [if text_match \<noteq> None then Text_extracted else Text_missing] @
         (if extract_mode = ascii ''summary''
          then [if summary_match \<noteq> None then Summary_extracted else Summary_missing]
          else []) @
         (if text_match = None \<and> summary_match = None
          then Parse_failed_both #
               (if strip full_response_text \<noteq> [] then [Using_full_response] else [])
          else []))"

text \<open>Lines 239 to 284: the body of the \<open>try\<close> statement of \<open>analyze_document\<close>.\<close>

definition analyze_try ::
  "uploaded_file \<Rightarrow> pystr \<Rightarrow> pystr \<Rightarrow> world
     \<Rightarrow> (exn + pystr option \<times> pystr option) \<times> world" where
  "analyze_try f prompt extract_mode w =
     (case generate_content prompt f (py_print Sending w) of
        (Raises e, w1) \<Rightarrow> (Inl e, w1)
      | (Returns response, w1) \<Rightarrow>
          (let w2 = py_print Parsing w1
           in case response of
                No_text has_feedback \<Rightarrow>
                  (Inr (None, None),
                   (if has_feedback then py_print Prompt_feedback (py_print No_text_content w2)
                    else py_print No_text_content w2))
              | Text_raises e \<Rightarrow> (Inl e, w2)
              | Text full_response_text \<Rightarrow>
                  (Inr (parse_response full_response_text extract_mode),
                   py_prints (parse_messages full_response_text extract_mode) w2)))"

text \<open>Lines 286 to 288: the \<open>except\<close> clause.\<close>

definition analyze_except ::
  "exn \<Rightarrow> world \<Rightarrow> (exn + pystr option \<times> pystr option) \<times> world" where
  "analyze_except e w = (Inr (None, None), py_print (Analysis_error e) w)"

text \<open>
  Lines 289 to 297: the \<open>finally\<close> block, itself a \<open>try\<close> with an \<open>except\<close> clause. The file
  object is true in a condition, and its name is true when it is not empty.
\<close>

definition delete_uploaded :: "uploaded_file \<Rightarrow> world \<Rightarrow> (exn + unit) \<times> world" where
  "delete_uploaded f w =
     (if name f \<noteq> [] then
        (case delete_file (name f) (py_print (Deleting (name f)) w) of
           (Raises delete_e, w') \<Rightarrow> (Inl delete_e, w')
         | (Returns u, w') \<Rightarrow> (Inr (), py_print Deleted w'))
      else (Inr (), w))"

definition analyze_finally :: "uploaded_file \<Rightarrow> world \<Rightarrow> (exn + unit) \<times> world" where
  "analyze_finally f =
     try_except (delete_uploaded f) (\<lambda>delete_e w. (Inr (), py_print (Delete_failed delete_e) w))"

definition analyze_document ::
  "uploaded_file \<Rightarrow> pystr \<Rightarrow> pystr \<Rightarrow> world
     \<Rightarrow> (exn + pystr option \<times> pystr option) \<times> world" where
  "analyze_document f extract_mode language w =
     (let prompt = build_prompt (display_name f) extract_mode language
      in try_finally (try_except (analyze_try f prompt extract_mode) analyze_except)
           (analyze_finally f) (py_print (Analyzing language extract_mode) w))"

text \<open>
  Lines 321 to 325 of the command line program, and lines 203 to 211 of \<open>app.py\<close>: upload
  with the default three attempts and five seconds of delay, then analysis of the file
  that the upload returned.
\<close>

definition upload_and_analyze ::
  "pystr \<Rightarrow> pystr \<Rightarrow> pystr \<Rightarrow> world
     \<Rightarrow> (exn + pystr option \<times> pystr option) option \<times> world" where
  "upload_and_analyze input_file extract_mode language w =
     (case upload_file_to_gemini input_file 3 5 w of
        (Some f, w1) \<Rightarrow>
          (case analyze_document f extract_mode language w1 of
             (r, w2) \<Rightarrow> (Some r, w2))
      | (None, w1) \<Rightarrow> (None, py_print Process_failed w1))"

text \<open>
  A service on which the first upload succeeds and the poll of its state fails once: the
  \<open>k\<close>-th upload returns the file \<open>files/k\<close>, the first in state \<open>PROCESSING\<close> and the later
  ones in state \<open>ACTIVE\<close>; \<open>get_file\<close> raises; deletion and generation succeed.
\<close>

definition uploaded_number :: "nat \<Rightarrow> uploaded_file" where
  "uploaded_number k =
     \<lparr>name = ascii ''files/'' @ [48 + k], display_name = ascii ''doc.pdf'',
      state_name = (if k = 0 then ''PROCESSING'' else ''ACTIVE'')\<rparr>"

definition poll_fails :: world where
  "poll_fails =
     \<lparr>path_exists = (\<lambda>p. True),
      upload_reply = (\<lambda>k. Returns (uploaded_number k)),
      get_reply = (\<lambda>k. Raises (Exception ''connection reset'')),
      delete_reply = (\<lambda>k. Returns ()),
      generate_reply = (\<lambda>k. Returns (Text hello_response)),
      duration = (\<lambda>k. 1), clock = 0, calls = [], printed = []\<rparr>"

text \<open>
  A service on which the first two uploads fail and the third gives an active file, and one
  on which the uploaded file is in state \<open>PROCESSING\<close> for thirty polls, more than 300
  seconds, before it becomes active, and on which its deletion fails.
\<close>

definition third_time_lucky :: world where
  "third_time_lucky =
     \<lparr>path_exists = (\<lambda>p. True),
      upload_reply = (\<lambda>k. if k < 2 then Raises (Exception ''timeout'')
                             else Returns (uploaded_number k)),
      get_reply = (\<lambda>k. Raises (Exception ''connection reset'')),
      delete_reply = (\<lambda>k. Returns ()),
      generate_reply = (\<lambda>k. Returns (Text hello_response)),
      duration = (\<lambda>k. 1), clock = 0, calls = [], printed = []\<rparr>"


text \<open>A service whose uploads all fail, and one whose generation call fails.\<close>

definition upload_always_fails :: world where
  "upload_always_fails =
     \<lparr>path_exists = (\<lambda>p. True),
      upload_reply = (\<lambda>k. Raises (Exception ''service unavailable'')),
      get_reply = (\<lambda>k. Returns (uploaded_number 1)),
      delete_reply = (\<lambda>k. Returns ()),
      generate_reply = (\<lambda>k. Returns (Text hello_response)),
      duration = (\<lambda>k. 1), clock = 0, calls = [], printed = []\<rparr>"


definition generation_fails :: world where
  "generation_fails =
     \<lparr>path_exists = (\<lambda>p. True),
      upload_reply = (\<lambda>k. Returns (uploaded_number 1)),
      get_reply = (\<lambda>k. Returns (uploaded_number 1)),
      delete_reply = (\<lambda>k. Raises (Exception ''permission denied'')),
      generate_reply = (\<lambda>k. Raises (Exception ''deadline exceeded'')),
      duration = (\<lambda>k. 1), clock = 0, calls = [], printed = []\<rparr>"

section \<open>The search finds the first section\<close>

lemma match_literal_iff:
  "match_literal p t = Some r \<longleftrightarrow>
     length p \<le> length t \<and> ci_eq p (take (length p) t) \<and> r = drop (length p) t"
  by (induction p t rule: match_literal.induct) (auto simp: ci_eq_def)

lemma match_literal_occurs:
  "i \<le> length t \<Longrightarrow> match_literal p (drop i t) \<noteq> None \<longleftrightarrow> occurs_at p t i"
  by (cases "match_literal p (drop i t)")
     (auto simp: match_literal_iff occurs_at_def simp flip: not_Some_eq)

lemma match_literal_None_iff:
  "match_literal p t = None \<longleftrightarrow> \<not> occurs_at p t 0"
  using match_literal_occurs [of 0 t p] by auto

lemma occurs_at_Cons: "occurs_at p (c # cs) (Suc i) = occurs_at p cs i"
  by (simp add: occurs_at_def)

lemma lazy_group_None:
  "lazy_group e t = None \<longleftrightarrow> (\<forall>j. \<not> occurs_at e t j)"
proof (induction t)
  case Nil
  show ?case by (auto simp: match_literal_None_iff occurs_at_def)
next
  case (Cons c cs)
  have "(\<forall>j. \<not> occurs_at e (c # cs) j) \<longleftrightarrow>
        \<not> occurs_at e (c # cs) 0 \<and> (\<forall>j. \<not> occurs_at e cs j)"
    by (metis occurs_at_Cons not0_implies_Suc)
  with Cons show ?case by (auto simp: match_literal_None_iff)
qed

lemma lazy_group_Some:
  "lazy_group e t = Some g \<Longrightarrow>
     take (length g) t = g \<and> occurs_at e t (length g) \<and> (\<forall>j < length g. \<not> occurs_at e t j)"
proof (induction t arbitrary: g)
  case Nil
  then show ?case by (auto simp: match_literal_None_iff split: if_splits)
next
  case (Cons c cs)
  show ?case
  proof (cases "match_literal e (c # cs) = None")
    case False
    with Cons.prems show ?thesis by (auto simp: match_literal_None_iff)
  next
    case True
    with Cons.prems obtain g' where g': "lazy_group e cs = Some g'" "g = c # g'" by auto
    from Cons.IH [OF g'(1)] True g'(2) show ?thesis
      by (auto simp: occurs_at_Cons match_literal_None_iff less_Suc_eq_0_disj)
  qed
qed


lemma occurs_at_drop:
  "k \<le> length t \<Longrightarrow> occurs_at p (drop k t) j = occurs_at p t (k + j)"
  by (auto simp: occurs_at_def add.commute)

lemma match_here_Some:
  "match_here s e t = Some g \<longleftrightarrow>
     occurs_at s t 0 \<and> lazy_group e (drop (length s) t) = Some g"
proof (cases "match_literal s t")
  case None
  then show ?thesis by (simp add: match_here_def match_literal_None_iff [symmetric])
next
  case (Some r)
  then have "r = drop (length s) t" "occurs_at s t 0"
    by (simp_all add: match_literal_iff occurs_at_def)
  with Some show ?thesis by (simp add: match_here_def)
qed

lemma match_here_None:
  "match_here s e t = None \<longleftrightarrow>
     \<not> occurs_at s t 0 \<or> lazy_group e (drop (length s) t) = None"
proof (cases "match_here s e t")
  case None
  have "lazy_group e (drop (length s) t) = None" if "occurs_at s t 0"
  proof (cases "lazy_group e (drop (length s) t)")
    case (Some g)
    with that have "match_here s e t = Some g" by (simp only: match_here_Some)
    with None show ?thesis by simp
  qed
  with None show ?thesis by auto
next
  case (Some g)
  then have "occurs_at s t 0 \<and> lazy_group e (drop (length s) t) = Some g"
    by (simp only: match_here_Some)
  with Some show ?thesis by simp
qed

lemma drop_Suc_all:
  "(\<forall>i \<le> Suc n. P (drop i (c # cs))) \<longleftrightarrow> P (c # cs) \<and> (\<forall>i \<le> n. P (drop i cs))"
proof
  assume h: "\<forall>i \<le> Suc n. P (drop i (c # cs))"
  then have "P (drop 0 (c # cs))" by blast
  moreover have "\<forall>i \<le> n. P (drop i cs)"
  proof (intro allI impI)
    fix i assume "i \<le> n"
    with h have "P (drop (Suc i) (c # cs))" by blast
    then show "P (drop i cs)" by simp
  qed
  ultimately show "P (c # cs) \<and> (\<forall>i \<le> n. P (drop i cs))" by simp
next
  assume h: "P (c # cs) \<and> (\<forall>i \<le> n. P (drop i cs))"
  show "\<forall>i \<le> Suc n. P (drop i (c # cs))"
  proof (intro allI impI)
    fix i assume "i \<le> Suc n"
    then show "P (drop i (c # cs))" using h by (cases i) auto
  qed
qed

lemma re_search_None:
  "re_search_group s e t = None \<longleftrightarrow> (\<forall>i \<le> length t. match_here s e (drop i t) = None)"
proof (induction t)
  case Nil
  show ?case by simp
next
  case (Cons c cs)
  show ?case
    using Cons.IH drop_Suc_all [of "length cs" "\<lambda>u. match_here s e u = None" c cs]
    by (auto split: option.splits)
qed

lemma re_search_Some:
  "re_search_group s e t = Some g \<Longrightarrow>
     \<exists>i \<le> length t. match_here s e (drop i t) = Some g \<and>
       (\<forall>i' < i. match_here s e (drop i' t) = None)"
proof (induction t)
  case Nil
  then show ?case by simp
next
  case (Cons c cs)
  show ?case
  proof (cases "match_here s e (c # cs)")
    case (Some g')
    with Cons.prems have "g' = g" by simp
    with Some have "match_here s e (drop 0 (c # cs)) = Some g" by simp
    then show ?thesis by blast
  next
    case None
    with Cons.prems have "re_search_group s e cs = Some g" by simp
    from Cons.IH [OF this] obtain i where i: "i \<le> length cs"
      "match_here s e (drop i cs) = Some g" "\<forall>i' < i. match_here s e (drop i' cs) = None"
      by blast
    have "\<forall>i' < Suc i. match_here s e (drop i' (c # cs)) = None"
    proof (intro allI impI)
      fix i' assume "i' < Suc i"
      then show "match_here s e (drop i' (c # cs)) = None"
        using None i(3) by (cases i') auto
    qed
    with i(1,2) show ?thesis
      by (intro exI [of _ "Suc i"]) simp
  qed
qed

lemma search_None_iff:
  "re_search_group s e t = None \<longleftrightarrow>
     \<not> (\<exists>i j. occurs_at s t i \<and> occurs_at e t j \<and> i + length s \<le> j)"
proof
  assume N: "re_search_group s e t = None"
  show "\<not> (\<exists>i j. occurs_at s t i \<and> occurs_at e t j \<and> i + length s \<le> j)"
  proof
    assume "\<exists>i j. occurs_at s t i \<and> occurs_at e t j \<and> i + length s \<le> j"
    then obtain i j where ij: "occurs_at s t i" "occurs_at e t j" "i + length s \<le> j" by blast
    from ij(1) have il: "i \<le> length t" "i + length s \<le> length t" by (auto simp: occurs_at_def)
    from N il(1) have "match_here s e (drop i t) = None" by (simp add: re_search_None)
    moreover from ij(1) il(1) have "occurs_at s (drop i t) 0" by (simp add: occurs_at_drop)
    ultimately have "lazy_group e (drop (length s) (drop i t)) = None"
      by (simp add: match_here_None)
    then have "\<not> occurs_at e (drop (i + length s) t) (j - (i + length s))"
      by (simp add: lazy_group_None add.commute)
    with il(2) ij(3) have "\<not> occurs_at e t j" by (simp add: occurs_at_drop)
    with ij(2) show False by simp
  qed
next
  assume H: "\<not> (\<exists>i j. occurs_at s t i \<and> occurs_at e t j \<and> i + length s \<le> j)"
  have "match_here s e (drop i t) = None" if il: "i \<le> length t" for i
  proof (cases "occurs_at s t i")
    case False
    with il show ?thesis by (simp add: match_here_None occurs_at_drop)
  next
    case True
    then have l: "i + length s \<le> length t" by (simp add: occurs_at_def)
    have "\<not> occurs_at e (drop (i + length s) t) j" for j
    proof -
      have "i + length s \<le> i + length s + j" by simp
      with H True have "\<not> occurs_at e t (i + length s + j)" by blast
      with l show ?thesis by (simp add: occurs_at_drop)
    qed
    then have "lazy_group e (drop (length s) (drop i t)) = None"
      by (simp add: lazy_group_None add.commute)
    then show ?thesis by (simp add: match_here_None)
  qed
  then show "re_search_group s e t = None" by (simp add: re_search_None)
qed

lemma search_Some_first:
  assumes "re_search_group s e t = Some g"
  shows "\<exists>i j. occurs_at s t i \<and> occurs_at e t j \<and> i + length s \<le> j \<and>
           (\<forall>i'. occurs_at s t i' \<longrightarrow> i \<le> i') \<and>
           (\<forall>j'. occurs_at e t j' \<and> i + length s \<le> j' \<longrightarrow> j \<le> j') \<and>
           g = take (j - (i + length s)) (drop (i + length s) t)"
proof -
  from re_search_Some [OF assms] obtain i where i: "i \<le> length t"
    "match_here s e (drop i t) = Some g" "\<forall>i' < i. match_here s e (drop i' t) = None"
    by blast
  from i(1,2) have si: "occurs_at s t i" and lg: "lazy_group e (drop (i + length s) t) = Some g"
    by (auto simp: match_here_Some occurs_at_drop add.commute)
  from si have l: "i + length s \<le> length t" by (simp add: occurs_at_def)
  let ?u = "drop (i + length s) t"
  from lazy_group_Some [OF lg] have g: "take (length g) ?u = g"
    and ej: "occurs_at e ?u (length g)" and emin: "\<forall>j < length g. \<not> occurs_at e ?u j"
    by blast+
  let ?j = "i + length s + length g"
  from ej l have ej': "occurs_at e t ?j" by (simp add: occurs_at_drop)
  have first_s: "i \<le> i'" if "occurs_at s t i'" for i'
  proof (rule ccontr)
    assume "\<not> i \<le> i'"
    then have lt: "i' < i" by simp
    with i(3) have "match_here s e (drop i' t) = None" by blast
    moreover from that lt i(1) have "occurs_at s (drop i' t) 0" by (simp add: occurs_at_drop)
    ultimately have "lazy_group e (drop (length s) (drop i' t)) = None"
      by (simp add: match_here_None)
    then have n: "\<not> occurs_at e (drop (i' + length s) t) k" for k
      by (simp add: lazy_group_None add.commute)
    from lt l have "i' + length s \<le> length t" by simp
    then have "occurs_at e (drop (i' + length s) t) (?j - (i' + length s)) =
        occurs_at e t (i' + length s + (?j - (i' + length s)))"
      by (rule occurs_at_drop)
    moreover from lt have "i' + length s + (?j - (i' + length s)) = ?j" by simp
    ultimately have "\<not> occurs_at e t ?j"
      using n [of "?j - (i' + length s)"] by metis
    with ej' show False by simp
  qed
  have first_e: "?j \<le> j'" if "occurs_at e t j'" "i + length s \<le> j'" for j'
  proof (rule ccontr)
    assume "\<not> ?j \<le> j'"
    with that(2) have "j' - (i + length s) < length g" by simp
    with emin have "\<not> occurs_at e ?u (j' - (i + length s))" by blast
    with l that(2) have "\<not> occurs_at e t j'" by (simp add: occurs_at_drop)
    with that(1) show False by simp
  qed
  have "?j - (i + length s) = length g" by simp
  with g have "g = take (?j - (i + length s)) ?u" by (simp only:)
  moreover have "i + length s \<le> ?j" by simp
  ultimately show ?thesis
    using si ej' first_s first_e by blast
qed

lemma section_found_iff:
  "section_found s e t \<longleftrightarrow>
     (\<exists>i j. occurs_at s t i \<and> occurs_at e t j \<and> i + length s \<le> j)"
proof
  assume "section_found s e t"
  then obtain i j where "occurs_at s t i" "occurs_at e t j"
    "j \<in> set [i + length s ..< Suc (length t)]"
    unfolding section_found_def list_ex_iff by blast
  moreover from this have "i + length s \<le> j" by auto
  ultimately show "\<exists>i j. occurs_at s t i \<and> occurs_at e t j \<and> i + length s \<le> j" by blast
next
  assume "\<exists>i j. occurs_at s t i \<and> occurs_at e t j \<and> i + length s \<le> j"
  then obtain i j where ij: "occurs_at s t i" "occurs_at e t j" "i + length s \<le> j" by blast
  from ij(1) have "i \<in> set [0 ..< Suc (length t)]" by (auto simp: occurs_at_def)
  moreover from ij(2,3) have "j \<in> set [i + length s ..< Suc (length t)]"
    by (auto simp: occurs_at_def)
  ultimately show "section_found s e t"
    unfolding section_found_def list_ex_iff using ij(1,2) by blast
qed

section \<open>Stripping\<close>

lemma lstrip_idem: "lstrip (lstrip s) = lstrip s"
  by (simp add: lstrip_def)

lemma rstrip_idem: "rstrip (rstrip s) = rstrip s"
  by (simp add: rstrip_def)

lemma rstrip_append_nonspace: "\<not> isspace c \<Longrightarrow> rstrip (c # s) = c # rstrip s"
  by (simp add: rstrip_def dropWhile_append3 dropWhile_append)

lemma lstrip_rstrip:
  assumes "lstrip s = s"
  shows "lstrip (rstrip s) = rstrip s"
proof (cases s)
  case Nil
  then show ?thesis by (simp add: lstrip_def rstrip_def)
next
  case (Cons c cs)
  have "\<not> isspace c"
  proof
    assume "isspace c"
    with assms Cons have "dropWhile isspace cs = c # cs" by (simp add: lstrip_def)
    then have "length (dropWhile isspace cs) = Suc (length cs)" by simp
    with length_dropWhile_le [of isspace cs] show False by simp
  qed
  with Cons show ?thesis by (simp add: rstrip_append_nonspace lstrip_def)
qed

lemma strip_idem: "strip (strip s) = strip s"
  by (simp add: strip_def lstrip_rstrip lstrip_idem rstrip_idem)

section \<open>Properties of the response parser\<close>

text \<open>The definitions to unfold when the parser is evaluated on a given response.\<close>

lemmas parser_eval =
  parse_response_def extract_between_def match_here_def
  TEXT_START_MARKER_def TEXT_END_MARKER_def SUMMARY_START_MARKER_def SUMMARY_END_MARKER_def
  ascii_def literal_ignorecase_def strip_def lstrip_def rstrip_def isspace_def

lemma extract_between_None:
  "extract_between s e t = None \<longleftrightarrow> \<not> section_found s e t"
proof -
  have "extract_between s e t = None \<longleftrightarrow> re_search_group s e t = None"
    by (simp add: extract_between_def split: option.splits)
  then show ?thesis by (simp only: search_None_iff section_found_iff)
qed

lemma extract_between_Some:
  assumes "extract_between s e t = Some x"
  shows "\<exists>i j. occurs_at s t i \<and> (\<forall>i'. occurs_at s t i' \<longrightarrow> i \<le> i') \<and>
           occurs_at e t j \<and> i + length s \<le> j \<and>
           (\<forall>j'. occurs_at e t j' \<and> i + length s \<le> j' \<longrightarrow> j \<le> j') \<and>
           x = strip (take (j - (i + length s)) (drop (i + length s) t))"
proof -
  from assms obtain g where g: "re_search_group s e t = Some g" "x = strip g"
    by (auto simp: extract_between_def split: option.splits)
  from search_Some_first [OF g(1)] g(2) show ?thesis by blast
qed

lemma strip_nonempty_iff: "strip s \<noteq> [] \<longleftrightarrow> (\<exists>c \<in> set s. \<not> isspace c)"
proof -
  have "dropWhile isspace s = [] \<longleftrightarrow> (\<forall>c \<in> set s. isspace c)"
    by (simp add: dropWhile_eq_Nil_conv)
  moreover have "rev (dropWhile isspace (rev u)) = [] \<longleftrightarrow> (\<forall>c \<in> set u. isspace c)" for u
    by (simp add: dropWhile_eq_Nil_conv)
  moreover have "(\<forall>c \<in> set (dropWhile isspace s). isspace c) \<longleftrightarrow> (\<forall>c \<in> set s. isspace c)"
  proof
    assume h: "\<forall>c \<in> set (dropWhile isspace s). isspace c"
    have "dropWhile isspace s = []"
    proof (rule ccontr)
      assume "dropWhile isspace s \<noteq> []"
      then have "\<not> isspace (hd (dropWhile isspace s))" by (rule hd_dropWhile)
      moreover from \<open>dropWhile isspace s \<noteq> []\<close> have "hd (dropWhile isspace s) \<in> set (dropWhile isspace s)"
        by simp
      ultimately show False using h by blast
    qed
    then show "\<forall>c \<in> set s. isspace c" by (simp add: dropWhile_eq_Nil_conv)
  next
    assume "\<forall>c \<in> set s. isspace c"
    then show "\<forall>c \<in> set (dropWhile isspace s). isspace c"
      by (meson set_dropWhileD)
  qed
  ultimately show ?thesis by (simp add: strip_def lstrip_def rstrip_def)
qed

lemma strip_edges:
  assumes "strip s = s" "s \<noteq> []"
  shows "\<not> isspace (hd s) \<and> \<not> isspace (last s)"
proof -
  from assms(1) have l: "lstrip s = s"
    by (metis lstrip_rstrip lstrip_idem strip_def)
  from assms(1) have r: "rstrip s = s"
    by (metis rstrip_idem strip_def)
  from l assms(2) have "\<not> isspace (hd s)"
    by (metis hd_dropWhile lstrip_def)
  moreover from r have "dropWhile isspace (rev s) = rev s"
    by (metis rstrip_def rev_rev_ident)
  with assms(2) have "\<not> isspace (hd (rev s))"
    by (metis hd_dropWhile rev_is_Nil_conv)
  with assms(2) have "\<not> isspace (last s)" by (simp add: hd_rev)
  ultimately show ?thesis by simp
qed

text \<open>
  Claim C2. The full text found by the marker search is the text strictly between the first
  start marker of the response and the first end marker that begins at or after the end of
  that start marker, both matched up to letter case and with any code points (newlines
  too) in between, stripped of leading and trailing whitespace; it is what the parser
  returns as full text. The search finds nothing exactly when the response has no start
  marker with an end marker after it. The example of the specification, parsed in full
  mode, gives the full text \<open>HELLO\<close> and no summary.
\<close>

theorem parser_full_text:
  "(case extract_between TEXT_START_MARKER TEXT_END_MARKER raw of
      None \<Rightarrow> \<not> section_found TEXT_START_MARKER TEXT_END_MARKER raw
    | Some x \<Rightarrow>
        (\<exists>i j. occurs_at TEXT_START_MARKER raw i \<and>
           (\<forall>i'. occurs_at TEXT_START_MARKER raw i' \<longrightarrow> i \<le> i') \<and>
           occurs_at TEXT_END_MARKER raw j \<and> i + length TEXT_START_MARKER \<le> j \<and>
           (\<forall>j'. occurs_at TEXT_END_MARKER raw j' \<and> i + length TEXT_START_MARKER \<le> j'
              \<longrightarrow> j \<le> j') \<and>
           x = strip (take (j - (i + length TEXT_START_MARKER))
                  (drop (i + length TEXT_START_MARKER) raw))) \<and>
        fst (parse_response raw extract_mode) = Some x) \<and>
   parse_response hello_response (ascii ''full'') = (Some (ascii ''HELLO''), None)"
proof -
  have ex: "parse_response hello_response (ascii ''full'') = (Some (ascii ''HELLO''), None)"
    by (simp add: hello_response_def parser_eval)
  show ?thesis
  proof (cases "extract_between TEXT_START_MARKER TEXT_END_MARKER raw")
    case None
    then have "\<not> section_found TEXT_START_MARKER TEXT_END_MARKER raw"
      using extract_between_None by blast
    with None ex show ?thesis by simp
  next
    case (Some x)
    then have "fst (parse_response raw extract_mode) = Some x"
      by (simp add: parse_response_def Let_def)
    with extract_between_Some [OF Some] Some ex show ?thesis by simp
  qed
qed

text \<open>The theorem at a response in mixed case with text around the section.\<close>

theorem parser_full_text_witness:
  "\<exists>i j. occurs_at TEXT_START_MARKER mixed_case_response i \<and>
     (\<forall>i'. occurs_at TEXT_START_MARKER mixed_case_response i' \<longrightarrow> i \<le> i') \<and>
     occurs_at TEXT_END_MARKER mixed_case_response j \<and> i + length TEXT_START_MARKER \<le> j \<and>
     (\<forall>j'. occurs_at TEXT_END_MARKER mixed_case_response j' \<and>
        i + length TEXT_START_MARKER \<le> j' \<longrightarrow> j \<le> j') \<and>
     ascii ''HELLO'' = strip (take (j - (i + length TEXT_START_MARKER))
                  (drop (i + length TEXT_START_MARKER) mixed_case_response))"
proof -
  have "extract_between TEXT_START_MARKER TEXT_END_MARKER mixed_case_response =
      Some (ascii ''HELLO'')"
    by (simp add: mixed_case_response_def parser_eval)
  with parser_full_text [of mixed_case_response "ascii ''full''"] show ?thesis
    by simp
qed

text \<open>
  Claim C3. When the search for the text section finds nothing and the search for the
  summary section (made in summary mode only) finds nothing, a response with a code point
  that is not whitespace is returned whole, stripped, as full text, with no summary. When
  one of the searches finds its section, the parser returns the results of the searches and
  the fallback is not applied. The example of the specification, \<open>just some text\<close>, is
  returned as full text.
\<close>

theorem parser_fallback:
  "(\<not> section_found TEXT_START_MARKER TEXT_END_MARKER raw \<and>
    (extract_mode = ascii ''summary'' \<longrightarrow>
       \<not> section_found SUMMARY_START_MARKER SUMMARY_END_MARKER raw) \<and>
    (\<exists>c \<in> set raw. \<not> isspace c)
    \<longrightarrow> parse_response raw extract_mode = (Some (strip raw), None)) \<and>
   (section_found TEXT_START_MARKER TEXT_END_MARKER raw \<or>
    (extract_mode = ascii ''summary'' \<and>
       section_found SUMMARY_START_MARKER SUMMARY_END_MARKER raw)
    \<longrightarrow> parse_response raw extract_mode =
          (extract_between TEXT_START_MARKER TEXT_END_MARKER raw,
           if extract_mode = ascii ''summary''
           then extract_between SUMMARY_START_MARKER SUMMARY_END_MARKER raw else None)) \<and>
   parse_response (ascii ''just some text'') (ascii ''full'') =
     (Some (ascii ''just some text''), None)"
proof (intro conjI impI)
  assume "\<not> section_found TEXT_START_MARKER TEXT_END_MARKER raw \<and>
    (extract_mode = ascii ''summary'' \<longrightarrow>
       \<not> section_found SUMMARY_START_MARKER SUMMARY_END_MARKER raw) \<and>
    (\<exists>c \<in> set raw. \<not> isspace c)"
  then have "extract_between TEXT_START_MARKER TEXT_END_MARKER raw = None"
    "extract_mode = ascii ''summary'' \<longrightarrow>
       extract_between SUMMARY_START_MARKER SUMMARY_END_MARKER raw = None"
    "strip raw \<noteq> []"
    by (simp_all add: extract_between_None strip_nonempty_iff)
  then show "parse_response raw extract_mode = (Some (strip raw), None)"
    by (simp add: parse_response_def Let_def)
next
  assume "section_found TEXT_START_MARKER TEXT_END_MARKER raw \<or>
    (extract_mode = ascii ''summary'' \<and>
       section_found SUMMARY_START_MARKER SUMMARY_END_MARKER raw)"
  then have "extract_between TEXT_START_MARKER TEXT_END_MARKER raw \<noteq> None \<or>
    (extract_mode = ascii ''summary'' \<and>
       extract_between SUMMARY_START_MARKER SUMMARY_END_MARKER raw \<noteq> None)"
    by (simp add: extract_between_None)
  then show "parse_response raw extract_mode =
          (extract_between TEXT_START_MARKER TEXT_END_MARKER raw,
           if extract_mode = ascii ''summary''
           then extract_between SUMMARY_START_MARKER SUMMARY_END_MARKER raw else None)"
    by (auto simp: parse_response_def Let_def)
next
  show "parse_response (ascii ''just some text'') (ascii ''full'') =
     (Some (ascii ''just some text''), None)"
    by (simp add: parser_eval)
qed

text \<open>The theorem at a response without markers, and at one with a text section.\<close>

theorem parser_fallback_witness:
  "parse_response (ascii ''  no markers here  '') (ascii ''summary'') =
     (Some (ascii ''no markers here''), None) \<and>
   parse_response mixed_case_response (ascii ''summary'') = (Some (ascii ''HELLO''), None)"
proof -
  let ?r = "ascii ''  no markers here  ''"
  have "extract_between TEXT_START_MARKER TEXT_END_MARKER ?r = None"
    "extract_between SUMMARY_START_MARKER SUMMARY_END_MARKER ?r = None"
    by (simp_all add: parser_eval)
  then have "\<not> section_found TEXT_START_MARKER TEXT_END_MARKER ?r"
    "\<not> section_found SUMMARY_START_MARKER SUMMARY_END_MARKER ?r"
    using extract_between_None by blast+
  moreover have "\<exists>c \<in> set ?r. \<not> isspace c" "strip ?r = ascii ''no markers here''"
    by (simp_all add: parser_eval)
  ultimately have "\<not> section_found TEXT_START_MARKER TEXT_END_MARKER ?r"
    "\<not> section_found SUMMARY_START_MARKER SUMMARY_END_MARKER ?r"
    "\<exists>c \<in> set ?r. \<not> isspace c" "strip ?r = ascii ''no markers here''"
    by blast+
  with parser_fallback [of ?r "ascii ''summary''"]
  have a: "parse_response ?r (ascii ''summary'') = (Some (ascii ''no markers here''), None)"
    by simp
  have m: "extract_between TEXT_START_MARKER TEXT_END_MARKER mixed_case_response =
       Some (ascii ''HELLO'')"
    "extract_between SUMMARY_START_MARKER SUMMARY_END_MARKER mixed_case_response = None"
    by (simp_all add: mixed_case_response_def parser_eval)
  from m(1) have "section_found TEXT_START_MARKER TEXT_END_MARKER mixed_case_response"
    using extract_between_None [of TEXT_START_MARKER TEXT_END_MARKER mixed_case_response]
    by simp
  note this m
  with parser_fallback [of mixed_case_response "ascii ''summary''"]
  have "parse_response mixed_case_response (ascii ''summary'') = (Some (ascii ''HELLO''), None)"
    by simp
  with a show ?thesis by simp
qed

section \<open>Markers in the prompt\<close>

lemma starts_with_split:
  "c \<notin> set m \<Longrightarrow> starts_with m (xs @ c # ys) = starts_with m xs"
  by (induction m xs rule: starts_with.induct) auto

lemma count_occurrences_split:
  "c \<notin> set m \<Longrightarrow>
     count_occurrences m (xs @ c # ys) = count_occurrences m xs + count_occurrences m ys"
proof (induction xs)
  case Nil
  then show ?case using starts_with_split [of c m "[]" ys] by simp
next
  case (Cons x xs)
  then show ?case using starts_with_split [of c m "x # xs" ys] by simp
qed

lemma count_occurrences_unlines:
  assumes "10 \<notin> set m" "m \<noteq> []"
  shows "count_occurrences m (unlines ls) = sum_list (map (count_occurrences m) ls)"
proof (induction ls)
  case Nil
  from assms(2) show ?case by (cases m) (simp_all add: unlines_def)
next
  case (Cons l ls)
  have "unlines (l # ls) = l @ 10 # unlines ls" by (simp add: unlines_def)
  with Cons show ?case by (simp add: count_occurrences_split [OF assms(1)])
qed

lemma count_wrapped:
  assumes "40 \<notin> set m" "41 \<notin> set m" "h = h' @ [40]" "t = 41 # t'"
  shows "count_occurrences m (h @ d @ t) =
           count_occurrences m h' + count_occurrences m d + count_occurrences m t'"
proof -
  have "h @ d @ t = h' @ 40 # (d @ 41 # t')" using assms(3,4) by simp
  then show ?thesis
    by (simp only: count_occurrences_split [OF assms(1)] count_occurrences_split [OF assms(2)])
qed

lemma markers_no_parens:
  "40 \<notin> set TEXT_START_MARKER" "41 \<notin> set TEXT_START_MARKER"
  "40 \<notin> set TEXT_END_MARKER" "41 \<notin> set TEXT_END_MARKER"
  "40 \<notin> set SUMMARY_START_MARKER" "41 \<notin> set SUMMARY_START_MARKER"
  "40 \<notin> set SUMMARY_END_MARKER" "41 \<notin> set SUMMARY_END_MARKER"
  by (simp_all add: TEXT_START_MARKER_def TEXT_END_MARKER_def SUMMARY_START_MARKER_def
      SUMMARY_END_MARKER_def ascii_def)

lemma markers_one_line:
  "10 \<notin> set TEXT_START_MARKER" "TEXT_START_MARKER \<noteq> []"
  "10 \<notin> set TEXT_END_MARKER" "TEXT_END_MARKER \<noteq> []"
  "10 \<notin> set SUMMARY_START_MARKER" "SUMMARY_START_MARKER \<noteq> []"
  "10 \<notin> set SUMMARY_END_MARKER" "SUMMARY_END_MARKER \<noteq> []"
  by (simp_all add: TEXT_START_MARKER_def TEXT_END_MARKER_def SUMMARY_START_MARKER_def
      SUMMARY_END_MARKER_def ascii_def)

lemma first_line_count:
  assumes "40 \<notin> set m" "41 \<notin> set m"
  shows "count_occurrences m
           (ascii ''Please analyze the attached document ('' @ d @
            ascii '') and provide the following in '' @ l @ ascii '':'') =
         count_occurrences m (ascii ''Please analyze the attached document '') +
         count_occurrences m d +
         count_occurrences m (ascii '' and provide the following in '' @ l @ ascii '':'')"
proof -
  have "ascii ''Please analyze the attached document ('' =
      ascii ''Please analyze the attached document '' @ [40]"
    "ascii '') and provide the following in '' @ l @ ascii '':'' =
      41 # (ascii '' and provide the following in '' @ l @ ascii '':'')"
    by (simp_all add: ascii_def)
  from count_wrapped [OF assms this] show ?thesis by simp
qed

lemma summary_lines_count_arabic:
  "sum_list (map (count_occurrences TEXT_START_MARKER) (summary_prompt_lines d (ascii ''arabic'') (ascii ''right-to-left''))) =
     1 + count_occurrences TEXT_START_MARKER d"
  "sum_list (map (count_occurrences TEXT_END_MARKER) (summary_prompt_lines d (ascii ''arabic'') (ascii ''right-to-left''))) =
     1 + count_occurrences TEXT_END_MARKER d"
  "sum_list (map (count_occurrences SUMMARY_START_MARKER) (summary_prompt_lines d (ascii ''arabic'') (ascii ''right-to-left''))) =
     1 + count_occurrences SUMMARY_START_MARKER d"
  "sum_list (map (count_occurrences SUMMARY_END_MARKER) (summary_prompt_lines d (ascii ''arabic'') (ascii ''right-to-left''))) =
     1 + count_occurrences SUMMARY_END_MARKER d"
  by (simp_all add: first_line_count markers_no_parens summary_prompt_lines_def
      full_prompt_lines_def)
     (simp_all add: ascii_def TEXT_START_MARKER_def TEXT_END_MARKER_def
      SUMMARY_START_MARKER_def SUMMARY_END_MARKER_def)

lemma full_lines_count_arabic:
  "sum_list (map (count_occurrences TEXT_START_MARKER) (full_prompt_lines d (ascii ''arabic'') (ascii ''right-to-left''))) =
     1 + count_occurrences TEXT_START_MARKER d"
  "sum_list (map (count_occurrences TEXT_END_MARKER) (full_prompt_lines d (ascii ''arabic'') (ascii ''right-to-left''))) =
     1 + count_occurrences TEXT_END_MARKER d"
  by (simp_all add: first_line_count markers_no_parens summary_prompt_lines_def
      full_prompt_lines_def)
     (simp_all add: ascii_def TEXT_START_MARKER_def TEXT_END_MARKER_def
      SUMMARY_START_MARKER_def SUMMARY_END_MARKER_def)

lemma summary_lines_count_english:
  "sum_list (map (count_occurrences TEXT_START_MARKER) (summary_prompt_lines d (ascii ''english'') (ascii ''left-to-right''))) =
     1 + count_occurrences TEXT_START_MARKER d"
  "sum_list (map (count_occurrences TEXT_END_MARKER) (summary_prompt_lines d (ascii ''english'') (ascii ''left-to-right''))) =
     1 + count_occurrences TEXT_END_MARKER d"
  "sum_list (map (count_occurrences SUMMARY_START_MARKER) (summary_prompt_lines d (ascii ''english'') (ascii ''left-to-right''))) =
     1 + count_occurrences SUMMARY_START_MARKER d"
  "sum_list (map (count_occurrences SUMMARY_END_MARKER) (summary_prompt_lines d (ascii ''english'') (ascii ''left-to-right''))) =
     1 + count_occurrences SUMMARY_END_MARKER d"
  by (simp_all add: first_line_count markers_no_parens summary_prompt_lines_def
      full_prompt_lines_def)
     (simp_all add: ascii_def TEXT_START_MARKER_def TEXT_END_MARKER_def
      SUMMARY_START_MARKER_def SUMMARY_END_MARKER_def)

lemma full_lines_count_english:
  "sum_list (map (count_occurrences TEXT_START_MARKER) (full_prompt_lines d (ascii ''english'') (ascii ''left-to-right''))) =
     1 + count_occurrences TEXT_START_MARKER d"
  "sum_list (map (count_occurrences TEXT_END_MARKER) (full_prompt_lines d (ascii ''english'') (ascii ''left-to-right''))) =
     1 + count_occurrences TEXT_END_MARKER d"
  by (simp_all add: first_line_count markers_no_parens summary_prompt_lines_def
      full_prompt_lines_def)
     (simp_all add: ascii_def TEXT_START_MARKER_def TEXT_END_MARKER_def
      SUMMARY_START_MARKER_def SUMMARY_END_MARKER_def)


lemma prompt_text_marker_count:
  assumes "language = ascii ''arabic'' \<or> language = ascii ''english''"
  shows "count_occurrences TEXT_START_MARKER (build_prompt d extract_mode language) =
           1 + count_occurrences TEXT_START_MARKER d"
    and "count_occurrences TEXT_END_MARKER (build_prompt d extract_mode language) =
           1 + count_occurrences TEXT_END_MARKER d"
proof -
  have ne: "ascii ''english'' \<noteq> ascii ''arabic''" by (simp add: ascii_def)
  from assms ne show "count_occurrences TEXT_START_MARKER (build_prompt d extract_mode language) =
           1 + count_occurrences TEXT_START_MARKER d"
    by (auto simp: build_prompt_def Let_def text_dir_of_def count_occurrences_unlines
        markers_one_line summary_lines_count_arabic summary_lines_count_english
        full_lines_count_arabic full_lines_count_english)
  from assms ne show "count_occurrences TEXT_END_MARKER (build_prompt d extract_mode language) =
           1 + count_occurrences TEXT_END_MARKER d"
    by (auto simp: build_prompt_def Let_def text_dir_of_def count_occurrences_unlines
        markers_one_line summary_lines_count_arabic summary_lines_count_english
        full_lines_count_arabic full_lines_count_english)
qed

lemma prompt_summary_marker_count:
  assumes "language = ascii ''arabic'' \<or> language = ascii ''english''"
  shows "count_occurrences SUMMARY_START_MARKER (build_prompt d (ascii ''summary'') language) =
           1 + count_occurrences SUMMARY_START_MARKER d"
    and "count_occurrences SUMMARY_END_MARKER (build_prompt d (ascii ''summary'') language) =
           1 + count_occurrences SUMMARY_END_MARKER d"
proof -
  have ne: "ascii ''english'' \<noteq> ascii ''arabic''" by (simp add: ascii_def)
  from assms ne show "count_occurrences SUMMARY_START_MARKER
      (build_prompt d (ascii ''summary'') language) = 1 + count_occurrences SUMMARY_START_MARKER d"
    by (auto simp: build_prompt_def Let_def text_dir_of_def count_occurrences_unlines
        markers_one_line summary_lines_count_arabic summary_lines_count_english)
  from assms ne show "count_occurrences SUMMARY_END_MARKER
      (build_prompt d (ascii ''summary'') language) = 1 + count_occurrences SUMMARY_END_MARKER d"
    by (auto simp: build_prompt_def Let_def text_dir_of_def count_occurrences_unlines
        markers_one_line summary_lines_count_arabic summary_lines_count_english)
qed

lemma summary_prompt_order:
  "\<exists>a b c e f. build_prompt d (ascii ''summary'') language =
     a @ SUMMARY_START_MARKER @ b @ SUMMARY_END_MARKER @ c @
     TEXT_START_MARKER @ e @ TEXT_END_MARKER @ f"
proof -
  let ?ls = "summary_prompt_lines d language (text_dir_of language)"
  have "build_prompt d (ascii ''summary'') language =
      unlines (take 20 ?ls) @ SUMMARY_START_MARKER @
      (10 # ascii ''[Your detailed summary here]'' @ [10]) @ SUMMARY_END_MARKER @ [10, 10] @
      TEXT_START_MARKER @ (10 # ascii ''[Full extracted text here]'' @ [10]) @
      TEXT_END_MARKER @ [10]"
    by (simp add: build_prompt_def Let_def unlines_def summary_prompt_lines_def)
  then show ?thesis by blast
qed

lemma count_marker_file_name:
  "count_occurrences TEXT_START_MARKER marker_file_name = 1"
  by (simp add: marker_file_name_def ascii_def TEXT_START_MARKER_def)

lemma count_report_pdf:
  "count_occurrences TEXT_START_MARKER (ascii ''report.pdf'') = 0"
  "count_occurrences TEXT_END_MARKER (ascii ''report.pdf'') = 0"
  "count_occurrences SUMMARY_START_MARKER (ascii ''report.pdf'') = 0"
  "count_occurrences SUMMARY_END_MARKER (ascii ''report.pdf'') = 0"
  by (simp_all add: ascii_def TEXT_START_MARKER_def TEXT_END_MARKER_def
      SUMMARY_START_MARKER_def SUMMARY_END_MARKER_def)

text \<open>
  Claim C6, as amended. For the two languages of the program and every mode and display
  name, the prompt holds each text marker once more than the display name of the file
  does; in summary mode it holds each summary marker once more than the display name does,
  and it holds a summary start marker, a summary end marker, a text start marker and a text
  end marker in this order. So a prompt whose display name holds no marker has exactly one
  occurrence of each, the summary pair before the text pair.
\<close>

theorem prompt_markers:
  "language = ascii ''arabic'' \<or> language = ascii ''english'' \<longrightarrow>
     count_occurrences TEXT_START_MARKER (build_prompt d extract_mode language) =
       1 + count_occurrences TEXT_START_MARKER d \<and>
     count_occurrences TEXT_END_MARKER (build_prompt d extract_mode language) =
       1 + count_occurrences TEXT_END_MARKER d \<and>
     (extract_mode = ascii ''summary'' \<longrightarrow>
        count_occurrences SUMMARY_START_MARKER (build_prompt d extract_mode language) =
          1 + count_occurrences SUMMARY_START_MARKER d \<and>
        count_occurrences SUMMARY_END_MARKER (build_prompt d extract_mode language) =
          1 + count_occurrences SUMMARY_END_MARKER d \<and>
        (\<exists>a b c e f. build_prompt d extract_mode language =
           a @ SUMMARY_START_MARKER @ b @ SUMMARY_END_MARKER @ c @
           TEXT_START_MARKER @ e @ TEXT_END_MARKER @ f))"
  using prompt_text_marker_count [of language d extract_mode]
    prompt_summary_marker_count [of language d] summary_prompt_order [of d language]
  by blast

text \<open>The theorem in summary mode, for Arabic and a display name without markers.\<close>

theorem prompt_markers_witness:
  "count_occurrences TEXT_START_MARKER
     (build_prompt (ascii ''report.pdf'') (ascii ''summary'') (ascii ''arabic'')) = 1 \<and>
   count_occurrences TEXT_END_MARKER
     (build_prompt (ascii ''report.pdf'') (ascii ''summary'') (ascii ''arabic'')) = 1 \<and>
   count_occurrences SUMMARY_START_MARKER
     (build_prompt (ascii ''report.pdf'') (ascii ''summary'') (ascii ''arabic'')) = 1 \<and>
   count_occurrences SUMMARY_END_MARKER
     (build_prompt (ascii ''report.pdf'') (ascii ''summary'') (ascii ''arabic'')) = 1"
  using prompt_markers [of "ascii ''arabic''" "ascii ''report.pdf''" "ascii ''summary''"]
  by (simp add: count_report_pdf)

text \<open>
  The claim as it is written fails for a file whose name holds a marker: the display name
  is copied into the prompt, which then holds the text start marker twice.
\<close>

theorem prompt_markers_counterexample:
  "count_occurrences TEXT_START_MARKER
     (build_prompt marker_file_name (ascii ''full'') (ascii ''arabic'')) = 2"
  using prompt_text_marker_count(1) [of "ascii ''arabic''" marker_file_name "ascii ''full''"]
  by (simp add: count_marker_file_name)

section \<open>Properties of the choice and of the document\<close>

lemma add_content_paragraphs:
  "paragraphs (add_content rtl chunks doc) =
     paragraphs doc @
     map (\<lambda>para. \<lparr>alignment = (if rtl then Some RIGHT else None),
                   runs = [\<lparr>run_text = para, run_bold = None, run_size = None\<rparr>]\<rparr>)
       (filter (\<lambda>para. strip para \<noteq> []) chunks)"
  by (induction chunks arbitrary: doc) (simp_all add: add_paragraph_def)

lemma add_content_normal:
  "normal_alignment (add_content rtl chunks doc) = normal_alignment doc"
  by (induction chunks arbitrary: doc) (simp_all add: add_paragraph_def)

lemma split_nl_not_Nil: "split_nl s \<noteq> []"
  by (induction s) (auto split: list.splits)

lemma split_nl_no_newline: "chunk \<in> set (split_nl s) \<Longrightarrow> 10 \<notin> set chunk"
proof (induction s arbitrary: chunk)
  case Nil
  then show ?case by simp
next
  case (Cons c cs)
  then show ?case
    by (cases "split_nl cs") (auto split: if_splits)
qed

lemma split_nl_join:
  "concat (map (\<lambda>chunk. chunk @ [10]) (split_nl s)) = s @ [10]"
proof (induction s)
  case Nil
  show ?case by simp
next
  case (Cons c cs)
  then show ?case
    by (cases "split_nl cs") (auto simp: split_nl_not_Nil)
qed

text \<open>
  Claim C7, as amended. The content chosen for saving is the summary text exactly when
  the mode is \<open>summary\<close> and the summary text is present and not the empty string; in every
  other case (another mode, an absent summary, an empty summary) it is the full text.
\<close>

theorem content_to_save_choice:
  "(mode = ascii ''summary'' \<and> summary_text \<noteq> None \<and> summary_text \<noteq> Some [] \<longrightarrow>
      content_to_save mode extracted_text summary_text = summary_text) \<and>
   (\<not> (mode = ascii ''summary'' \<and> summary_text \<noteq> None \<and> summary_text \<noteq> Some []) \<longrightarrow>
      content_to_save mode extracted_text summary_text = extracted_text)"
  by (cases summary_text) (simp_all add: content_to_save_def truthy_def)

text \<open>The theorem in summary mode with a summary, and in full mode.\<close>

theorem content_to_save_choice_witness:
  "content_to_save (ascii ''summary'') (Some (ascii ''FULL TEXT'')) (Some (ascii ''short'')) =
     Some (ascii ''short'') \<and>
   content_to_save (ascii ''full'') (Some (ascii ''FULL TEXT'')) (Some (ascii ''short'')) =
     Some (ascii ''FULL TEXT'')"
  using content_to_save_choice [of "ascii ''summary''" "Some (ascii ''short'')"
      "Some (ascii ''FULL TEXT'')"]
    content_to_save_choice [of "ascii ''full''" "Some (ascii ''short'')"
      "Some (ascii ''FULL TEXT'')"]
  by (simp add: ascii_def)

text \<open>
  The claim as it is written fails for a summary that is present and empty: the parser
  returns the empty string for an empty summary section, and the full text is chosen.
\<close>

theorem content_to_save_counterexample:
  "parse_response empty_summary_response (ascii ''summary'') =
     (Some (ascii ''FULL TEXT''), Some []) \<and>
   content_to_save (ascii ''summary'') (Some (ascii ''FULL TEXT'')) (Some []) =
     Some (ascii ''FULL TEXT'')"
  by (simp add: empty_summary_response_def content_to_save_def truthy_def parser_eval)

text \<open>
  Claim C8. In the document written for a content, the first paragraph is the title,
  centred, and after the spacer there is one paragraph for each chunk of the content
  between line breaks that has a code point other than whitespace, in order, with the chunk
  as its text; blank chunks give no paragraph. For the language \<open>arabic\<close> (the case in which
  the program sets \<open>rtl\<close>) the style \<open>Normal\<close> and every content paragraph are
  right-aligned; for any other language neither alignment is set. When nothing raises,
  \<open>save_to_word_file\<close> returns \<open>True\<close> and this document is at the output path.
\<close>

theorem word_document_alignment:
  "(let doc = word_document content title language;
        body = drop 2 (paragraphs doc)
    in 2 \<le> length (paragraphs doc) \<and>
       alignment (paragraphs doc ! 0) = Some CENTER \<and>
       map run_text (runs (paragraphs doc ! 0)) = [title] \<and>
       map (\<lambda>p. map run_text (runs p)) body =
         map (\<lambda>chunk. [chunk]) (filter (\<lambda>chunk. \<exists>c \<in> set chunk. \<not> isspace c) (split_nl content)) \<and>
       (language = ascii ''arabic'' \<longrightarrow>
          normal_alignment doc = Some RIGHT \<and> (\<forall>p \<in> set body. alignment p = Some RIGHT)) \<and>
       (language \<noteq> ascii ''arabic'' \<longrightarrow>
          normal_alignment doc = None \<and> (\<forall>p \<in> set body. alignment p = None))) \<and>
   save_to_word_file (Some content) output_path title language False disk =
     (True, disk(output_path \<mapsto> word_document content title language))"
proof -
  have f: "(\<lambda>chunk. strip chunk \<noteq> []) = (\<lambda>chunk. \<exists>c \<in> set chunk. \<not> isspace c)"
    by (simp add: strip_nonempty_iff)
  show ?thesis
    by (auto simp: word_document_def Let_def add_content_paragraphs add_content_normal
        add_paragraph_def Document_def save_to_word_file_def f comp_def)
qed

text \<open>The theorem at a content of two lines of text around a blank line.\<close>

theorem word_document_alignment_witness:
  "alignment (paragraphs (word_document three_chunks (ascii ''Title'') (ascii ''arabic'')) ! 0) =
     Some CENTER \<and>
   normal_alignment (word_document three_chunks (ascii ''Title'') (ascii ''arabic'')) =
     Some RIGHT \<and>
   map (\<lambda>p. map run_text (runs p))
     (drop 2 (paragraphs (word_document three_chunks (ascii ''Title'') (ascii ''arabic'')))) =
     [[ascii ''first line''], [ascii ''second line'']] \<and>
   list_all (\<lambda>p. alignment p = Some RIGHT)
     (drop 2 (paragraphs (word_document three_chunks (ascii ''Title'') (ascii ''arabic'')))) \<and>
   list_all (\<lambda>p. alignment p = None)
     (drop 2 (paragraphs (word_document three_chunks (ascii ''Title'') (ascii ''english''))))"
proof -
  have ne: "ascii ''english'' \<noteq> ascii ''arabic''"
    by (simp add: ascii_def)
  have chunks: "filter (\<lambda>chunk. \<exists>c \<in> set chunk. \<not> isspace c) (split_nl three_chunks) =
      [ascii ''first line'', ascii ''second line'']"
    by (simp add: three_chunks_def ascii_def isspace_def)
  from word_document_alignment [of three_chunks "ascii ''Title''" "ascii ''arabic''"]
    word_document_alignment [of three_chunks "ascii ''Title''" "ascii ''english''"] ne chunks
  show ?thesis
    by (simp add: Let_def list_all_iff)
qed

section \<open>Upload and analysis on every service\<close>

text \<open>
  The equations of the two loops are unfolded by hand, one iteration at a time.
\<close>

declare wait_while_processing.simps [simp del] upload_loop.simps [simp del]

lemmas world_ops =
  py_print_def sleep_def remote_def upload_file_def get_file_def delete_file_def
  generate_content_def

lemma analyze_finally_returns:
  "\<exists>w'. analyze_finally f w = (Inr (), w')"
  by (cases "delete_reply w (length (filter is_delete (calls w)))")
     (simp_all add: analyze_finally_def try_except_def delete_uploaded_def world_ops)

lemma analyze_body_caught:
  "\<exists>result w'. try_except (analyze_try f prompt extract_mode) analyze_except w = (Inr result, w')"
  by (auto simp: try_except_def analyze_try_def analyze_except_def world_ops Let_def
      split: reply.splits response.splits prod.splits sum.splits)

lemma analyze_body_raised:
  assumes "generate_reply w (length (filter is_generate (calls w))) = Raises e \<or>
           generate_reply w (length (filter is_generate (calls w))) = Returns (Text_raises e)"
  shows "fst (try_except (analyze_try f prompt extract_mode) analyze_except
                (py_print m w)) = Inr (None, None)"
  using assms
  by (auto simp: try_except_def analyze_try_def analyze_except_def world_ops Let_def)

lemma analyze_document_result:
  "fst (analyze_document f extract_mode language w) = Inr (None, None) \<or>
   (\<exists>t. fst (analyze_document f extract_mode language w) = Inr (parse_response t extract_mode))"
proof -
  let ?w0 = "py_print (Analyzing language extract_mode) w"
  let ?prompt = "build_prompt (display_name f) extract_mode language"
  let ?body = "try_except (analyze_try f ?prompt extract_mode) analyze_except ?w0"
  have b: "fst ?body = Inr (None, None) \<or> (\<exists>t. fst ?body = Inr (parse_response t extract_mode))"
    by (auto simp: try_except_def analyze_try_def analyze_except_def world_ops Let_def
        split: reply.splits response.splits)
  obtain r w1 where r: "?body = (r, w1)"
    by (cases ?body)
  obtain w2 where "analyze_finally f w1 = (Inr (), w2)"
    using analyze_finally_returns by blast
  with r have "fst (analyze_document f extract_mode language w) = fst ?body"
    by (simp add: analyze_document_def try_finally_def Let_def)
  with b show ?thesis by simp
qed

text \<open>
  Claim C10. On every service \<open>analyze_document\<close> returns a pair and raises nothing,
  whatever the generation call and the deletion of the file do; when the generation call
  raises, or reading the text of the response raises, the pair is \<open>(None, None)\<close>.
\<close>

theorem analyze_document_never_raises:
  "(\<exists>result w'. analyze_document f extract_mode language w = (Inr result, w')) \<and>
   (\<forall>e. generate_reply w (length (filter is_generate (calls w))) = Raises e \<or>
        generate_reply w (length (filter is_generate (calls w))) = Returns (Text_raises e)
        \<longrightarrow> fst (analyze_document f extract_mode language w) = Inr (None, None))"
proof -
  let ?prompt = "build_prompt (display_name f) extract_mode language"
  let ?w0 = "py_print (Analyzing language extract_mode) w"
  obtain result w1 where
    b: "try_except (analyze_try f ?prompt extract_mode) analyze_except ?w0 = (Inr result, w1)"
    using analyze_body_caught by blast
  obtain w2 where c: "analyze_finally f w1 = (Inr (), w2)"
    using analyze_finally_returns by blast
  from b c have r: "analyze_document f extract_mode language w = (Inr result, w2)"
    by (simp add: analyze_document_def try_finally_def Let_def)
  have "result = (None, None)"
    if "generate_reply w (length (filter is_generate (calls w))) = Raises e \<or>
        generate_reply w (length (filter is_generate (calls w))) = Returns (Text_raises e)" for e
    using analyze_body_raised [OF that, of f ?prompt extract_mode "Analyzing language extract_mode"] b
    by simp
  with r show ?thesis by auto
qed

text \<open>The theorem on a service whose generation call and delete call both raise.\<close>

theorem analyze_document_never_raises_witness:
  "fst (analyze_document (uploaded_number 1) (ascii ''full'') (ascii ''arabic'') generation_fails) =
     Inr (None, None)"
proof -
  have "calls generation_fails = []"
    "generate_reply generation_fails 0 = Raises (Exception ''deadline exceeded'')"
    by (simp_all add: generation_fails_def)
  with analyze_document_never_raises [of "uploaded_number 1" "ascii ''full''" "ascii ''arabic''"
      generation_fails]
  show ?thesis by simp
qed

text \<open>
  Claim C9. Every full text and every summary text the parser returns, on the fallback path
  too, equals its own stripped form, and when it is not empty it neither begins nor ends
  with whitespace. So does every text that \<open>analyze_document\<close> returns, on every service.
\<close>

theorem parsed_texts_stripped:
  "(\<forall>x. fst (parse_response raw extract_mode) = Some x \<longrightarrow>
        strip x = x \<and> (x \<noteq> [] \<longrightarrow> \<not> isspace (hd x) \<and> \<not> isspace (last x))) \<and>
   (\<forall>x. snd (parse_response raw extract_mode) = Some x \<longrightarrow>
        strip x = x \<and> (x \<noteq> [] \<longrightarrow> \<not> isspace (hd x) \<and> \<not> isspace (last x))) \<and>
   (\<forall>x. fst (analyze_document f extract_mode language w) = Inr (Some x, y) \<or>
        fst (analyze_document f extract_mode language w) = Inr (y, Some x) \<longrightarrow>
        strip x = x \<and> (x \<noteq> [] \<longrightarrow> \<not> isspace (hd x) \<and> \<not> isspace (last x)))"
proof -
  have eb: "strip x = x" if "extract_between s e raw = Some x" for s e x
    using that by (auto simp: extract_between_def strip_idem split: option.splits)
  have f: "strip x = x" if "fst (parse_response raw extract_mode) = Some x" for x
    using that eb by (auto simp: parse_response_def Let_def strip_idem split: if_splits)
  have s: "strip x = x" if "snd (parse_response raw extract_mode) = Some x" for x
    using that eb by (auto simp: parse_response_def Let_def split: if_splits)
  have a: "strip x = x"
    if "fst (analyze_document f extract_mode language w) = Inr (Some x, y) \<or>
        fst (analyze_document f extract_mode language w) = Inr (y, Some x)" for x
  proof -
    from analyze_document_result [of f extract_mode language w] that
    obtain t where t: "fst (analyze_document f extract_mode language w) =
        Inr (parse_response t extract_mode)"
      by auto
    have eb': "strip x = x" if "extract_between s e t = Some x" for s e x
      using that by (auto simp: extract_between_def strip_idem split: option.splits)
    from t that have "fst (parse_response t extract_mode) = Some x \<or>
        snd (parse_response t extract_mode) = Some x"
      by (cases "parse_response t extract_mode") auto
    with eb' show ?thesis
      by (auto simp: parse_response_def Let_def strip_idem split: if_splits)
  qed
  from f s a strip_edges show ?thesis by blast
qed

text \<open>The theorem at a response with both sections, in summary mode.\<close>

theorem parsed_texts_stripped_witness:
  "strip (ascii ''HELLO'') = ascii ''HELLO'' \<and> \<not> isspace (hd (ascii ''HELLO'')) \<and>
   \<not> isspace (last (ascii ''HELLO'')) \<and>
   strip (ascii ''short'') = ascii ''short'' \<and> \<not> isspace (hd (ascii ''short'')) \<and>
   \<not> isspace (last (ascii ''short''))"
proof -
  have "parse_response both_sections_response (ascii ''summary'') =
      (Some (ascii ''HELLO''), Some (ascii ''short''))"
    by (simp add: both_sections_response_def parser_eval)
  moreover have "ascii ''HELLO'' \<noteq> []" "ascii ''short'' \<noteq> []"
    by (simp_all add: ascii_def)
  ultimately show ?thesis
    using parsed_texts_stripped [of both_sections_response "ascii ''summary''"] by simp
qed

lemma timeout_cleanup_calls:
  "calls (timeout_cleanup f w) = calls w @ [Delete_file (name f)]"
  by (cases "delete_reply w (length (filter is_delete (calls w)))")
     (simp_all add: timeout_cleanup_def world_ops)






lemma failed_cleanup_frame:
  "filter is_upload (calls (failed_cleanup f w)) = filter is_upload (calls w)"
  "same_service w (failed_cleanup f w)"
  "Upload_gave_up \<notin> set (printed w) \<Longrightarrow> Upload_gave_up \<notin> set (printed (failed_cleanup f w))"
  by (cases "delete_reply w (length (filter is_delete (calls w)))";
      simp add: failed_cleanup_def same_service_def world_ops)+

lemma timeout_cleanup_frame:
  "same_service w (timeout_cleanup f w)"
  "Upload_gave_up \<notin> set (printed w) \<Longrightarrow> Upload_gave_up \<notin> set (printed (timeout_cleanup f w))"
  by (cases "delete_reply w (length (filter is_delete (calls w)))";
      simp add: timeout_cleanup_def same_service_def world_ops)+

lemma same_service_trans:
  "same_service w w1 \<Longrightarrow> same_service w1 w2 \<Longrightarrow> same_service w w2"
  by (simp add: same_service_def)

lemma wait_frame:
  "filter is_upload (calls (snd (wait_while_processing s f w))) = filter is_upload (calls w) \<and>
   same_service w (snd (wait_while_processing s f w)) \<and>
   (Upload_gave_up \<notin> set (printed w) \<longrightarrow>
      Upload_gave_up \<notin> set (printed (snd (wait_while_processing s f w))))"
proof (induction s f w rule: wait_while_processing.induct)
  case (1 s f w)
  show ?case
  proof (cases "state_name f = ''PROCESSING''")
    case False
    then have "wait_while_processing s f w = (Poll_done f, w)"
      by (subst wait_while_processing.simps) simp
    then show ?thesis by (simp add: same_service_def)
  next
    case True
    show ?thesis
    proof (cases "300 < clock w - s")
      case t: True
      with True have "wait_while_processing s f w = (Poll_timed_out, timeout_cleanup f w)"
        by (subst wait_while_processing.simps) simp
      then show ?thesis
        by (simp add: timeout_cleanup_calls timeout_cleanup_frame)
    next
      case False
      let ?w1 = "remote (Get_file (name f)) (sleep 15 w)"
      have fr: "filter is_upload (calls ?w1) = filter is_upload (calls w)"
        "same_service w ?w1" "printed ?w1 = printed w"
        by (simp_all add: same_service_def world_ops)
      show ?thesis
      proof (cases "get_reply w (length (filter is_get (calls (sleep 15 w))))")
        case (Raises e)
        then have g: "get_file (name f) (sleep 15 w) = (Raises e, ?w1)"
          by (simp add: get_file_def sleep_def)
        with True False have "wait_while_processing s f w = (Poll_raised e, ?w1)"
          by (subst wait_while_processing.simps) simp
        with fr show ?thesis by simp
      next
        case (Returns f')
        then have g: "get_file (name f) (sleep 15 w) = (Returns f', ?w1)"
          by (simp add: get_file_def sleep_def)
        let ?w2 = "py_print (State_now (state_name f')) ?w1"
        from True False g have e: "wait_while_processing s f w = wait_while_processing s f' ?w2"
          by (subst wait_while_processing.simps) simp
        have fr2: "filter is_upload (calls ?w2) = filter is_upload (calls w)"
          "same_service w ?w2"
          "Upload_gave_up \<notin> set (printed w) \<longrightarrow> Upload_gave_up \<notin> set (printed ?w2)"
          by (simp_all add: same_service_def world_ops)
        from "1.IH" [OF True False g [symmetric] refl] fr2 show ?thesis
          unfolding e by (auto intro: same_service_trans)
      qed
    qed
  qed
qed

lemma upload_attempt_raised:
  assumes "upload_reply w (length (filter is_upload (calls w))) = Raises e"
  shows "upload_attempt file_path w = (Attempt_raised e, remote (Upload_file file_path) w)"
  using assms by (simp add: upload_attempt_def upload_file_def)

lemma upload_attempt_active:
  assumes "upload_reply w (length (filter is_upload (calls w))) = Returns f"
    and "state_name f = ''ACTIVE''"
  shows "upload_attempt file_path w =
           (Attempt_returned (Some f),
            py_print Active (py_print Waiting (py_print (Uploaded (name f))
              (remote (Upload_file file_path) w))))"
proof -
  have "wait_while_processing s f w' = (Poll_done f, w')" for s w'
    using assms(2) by (subst wait_while_processing.simps) simp
  with assms show ?thesis by (simp add: upload_attempt_def upload_file_def Let_def)
qed

lemma upload_attempt_frame:
  "filter is_upload (calls (snd (upload_attempt file_path w))) =
     filter is_upload (calls w) @ [Upload_file file_path] \<and>
   same_service w (snd (upload_attempt file_path w)) \<and>
   (Upload_gave_up \<notin> set (printed w) \<longrightarrow>
      Upload_gave_up \<notin> set (printed (snd (upload_attempt file_path w))))"
proof (cases "upload_reply w (length (filter is_upload (calls w)))")
  case (Raises e)
  from upload_attempt_raised [OF this] show ?thesis
    by (simp add: same_service_def world_ops)
next
  case (Returns f)
  let ?w1 = "remote (Upload_file file_path) w"
  let ?w2 = "py_print Waiting (py_print (Uploaded (name f)) ?w1)"
  have fr: "filter is_upload (calls ?w2) = filter is_upload (calls w) @ [Upload_file file_path]"
    "same_service w ?w2"
    "Upload_gave_up \<notin> set (printed w) \<longrightarrow> Upload_gave_up \<notin> set (printed ?w2)"
    by (simp_all add: same_service_def world_ops)
  obtain r w3 where r: "wait_while_processing (clock ?w2) f ?w2 = (r, w3)"
    by (cases "wait_while_processing (clock ?w2) f ?w2")
  from wait_frame [of "clock ?w2" f ?w2] r fr
  have fr3: "filter is_upload (calls w3) = filter is_upload (calls w) @ [Upload_file file_path]"
    "same_service w w3"
    "Upload_gave_up \<notin> set (printed w) \<longrightarrow> Upload_gave_up \<notin> set (printed w3)"
    by (auto intro: same_service_trans)
  have up: "upload_file file_path w = (Returns f, ?w1)"
    using Returns by (simp add: upload_file_def)
  show ?thesis
  proof (cases r)
    case (Poll_raised e)
    with up r fr3 show ?thesis by (simp add: upload_attempt_def Let_def)
  next
    case Poll_timed_out
    with up r fr3 show ?thesis by (simp add: upload_attempt_def Let_def)
  next
    case (Poll_done f')
    let ?w4 = "py_print (Unexpected_state (state_name f')) w3"
    from fr3 have fr4: "filter is_upload (calls ?w4) =
        filter is_upload (calls w) @ [Upload_file file_path]"
      "same_service w ?w4"
      "Upload_gave_up \<notin> set (printed w) \<longrightarrow> Upload_gave_up \<notin> set (printed ?w4)"
      by (simp_all add: same_service_def world_ops)
    from fr4 failed_cleanup_frame [where f = f' and w = ?w4]
    have fr5: "filter is_upload (calls (failed_cleanup f' ?w4)) =
        filter is_upload (calls w) @ [Upload_file file_path]"
      "same_service w (failed_cleanup f' ?w4)"
      "Upload_gave_up \<notin> set (printed w) \<longrightarrow>
         Upload_gave_up \<notin> set (printed (failed_cleanup f' ?w4))"
      by (auto intro: same_service_trans)
    from fr3 have fr6: "filter is_upload (calls (py_print Active w3)) =
        filter is_upload (calls w) @ [Upload_file file_path]"
      "same_service w (py_print Active w3)"
      "Upload_gave_up \<notin> set (printed w) \<longrightarrow> Upload_gave_up \<notin> set (printed (py_print Active w3))"
      by (simp_all add: same_service_def world_ops)
    from up r Poll_done fr5 fr6 show ?thesis
      by (simp add: upload_attempt_def Let_def)
  qed
qed

lemma upload_loop_attempts:
  "length (filter is_upload (calls (snd (upload_loop p r d a w)))) \<le>
     length (filter is_upload (calls w)) + nat (r - a) \<and>
   (Upload_gave_up \<notin> set (printed w) \<and>
    Upload_gave_up \<in> set (printed (snd (upload_loop p r d a w))) \<longrightarrow>
      length (filter is_upload (calls (snd (upload_loop p r d a w)))) =
        length (filter is_upload (calls w)) + nat (r - a))"
proof (induction p r d a w rule: upload_loop.induct)
  case (1 p r d a w)
  show ?case
  proof (cases "a < r")
    case False
    then have "upload_loop p r d a w = (None, w)"
      by (subst upload_loop.simps) simp
    then show ?thesis by simp
  next
    case True
    obtain x w1 where att: "upload_attempt p w = (x, w1)"
      by (cases "upload_attempt p w")
    from upload_attempt_frame [of p w] att
    have fr: "filter is_upload (calls w1) = filter is_upload (calls w) @ [Upload_file p]"
      "Upload_gave_up \<notin> set (printed w) \<longrightarrow> Upload_gave_up \<notin> set (printed w1)"
      by simp_all
    show ?thesis
    proof (cases x)
      case (Attempt_returned res)
      with True att have "upload_loop p r d a w = (res, w1)"
        by (subst upload_loop.simps) simp
      with fr True show ?thesis by auto
    next
      case (Attempt_raised e)
      let ?w2 = "py_print (Upload_error (a + 1) r e) w1"
      show ?thesis
      proof (cases "a + 1 < r")
        case False
        with True att Attempt_raised
        have "upload_loop p r d a w = (None, py_print Upload_gave_up ?w2)"
          by (subst upload_loop.simps) (simp add: Let_def)
        moreover from True False have "nat (r - a) = 1" by simp
        ultimately show ?thesis using fr by (simp add: world_ops)
      next
        case l: True
        let ?w3 = "sleep d (py_print (Retrying d) ?w2)"
        from True att Attempt_raised l
        have e: "upload_loop p r d a w = upload_loop p r d (a + 1) ?w3"
          by (subst upload_loop.simps) (simp add: Let_def)
        have fr3: "filter is_upload (calls ?w3) = filter is_upload (calls w) @ [Upload_file p]"
          "Upload_gave_up \<notin> set (printed w) \<longrightarrow> Upload_gave_up \<notin> set (printed ?w3)"
          using fr by (simp_all add: world_ops)
        from True have n: "nat (r - a) = Suc (nat (r - (a + 1)))" by simp
        from "1.IH" [OF True att [symmetric] Attempt_raised refl l] fr3 show ?thesis
          unfolding e n by auto
      qed
    qed
  qed
qed

lemma upload_loop_retry_success:
  assumes "\<forall>i < k. \<exists>e. upload_reply w (length (filter is_upload (calls w)) + i) = Raises e"
    and "upload_reply w (length (filter is_upload (calls w)) + k) = Returns f"
    and "state_name f = ''ACTIVE''" and "a + int k < r"
  shows "fst (upload_loop p r d a w) = Some f \<and>
         calls (snd (upload_loop p r d a w)) =
           calls w @ concat (replicate k [Upload_file p, Sleep d]) @ [Upload_file p]"
  using assms
proof (induction k arbitrary: a w)
  case 0
  from "0.prems"(2,3) have "upload_attempt p w =
      (Attempt_returned (Some f),
       py_print Active (py_print Waiting (py_print (Uploaded (name f))
         (remote (Upload_file p) w))))"
    using upload_attempt_active [of w f p] by simp
  moreover from "0.prems"(4) have "a < r" by simp
  ultimately have "upload_loop p r d a w =
      (Some f, py_print Active (py_print Waiting (py_print (Uploaded (name f))
         (remote (Upload_file p) w))))"
    by (subst upload_loop.simps) simp
  then show ?case by (simp add: world_ops)
next
  case (Suc k)
  from Suc.prems(1) obtain e where
    e: "upload_reply w (length (filter is_upload (calls w))) = Raises e"
    by force
  let ?w3 = "sleep d (py_print (Retrying d) (py_print (Upload_error (a + 1) r e)
      (remote (Upload_file p) w)))"
  from Suc.prems(4) have "a < r" "a + 1 < r" by simp_all
  with upload_attempt_raised [OF e, of p]
  have l: "upload_loop p r d a w = upload_loop p r d (a + 1) ?w3"
    by (subst upload_loop.simps) (simp add: Let_def)
  have c: "calls ?w3 = calls w @ [Upload_file p, Sleep d]"
    "upload_reply ?w3 = upload_reply w"
    by (simp_all add: world_ops)
  then have n: "length (filter is_upload (calls ?w3)) = Suc (length (filter is_upload (calls w)))"
    by simp
  have A: "\<forall>i < k. \<exists>e. upload_reply ?w3 (length (filter is_upload (calls ?w3)) + i) = Raises e"
  proof (intro allI impI)
    fix i assume "i < k"
    then have "Suc i < Suc k" by simp
    with Suc.prems(1) obtain e' where
      "upload_reply w (length (filter is_upload (calls w)) + Suc i) = Raises e'"
      by blast
    then show "\<exists>e. upload_reply ?w3 (length (filter is_upload (calls ?w3)) + i) = Raises e"
      unfolding n c(2) by simp
  qed
  from Suc.prems(2)
  have B: "upload_reply ?w3 (length (filter is_upload (calls ?w3)) + k) = Returns f"
    unfolding n c(2) by simp
  from Suc.prems(4) have C: "a + 1 + int k < r" by simp
  have "fst (upload_loop p r d (a + 1) ?w3) = Some f \<and>
      calls (snd (upload_loop p r d (a + 1) ?w3)) =
        calls ?w3 @ concat (replicate k [Upload_file p, Sleep d]) @ [Upload_file p]"
    by (rule Suc.IH [OF A B Suc.prems(3) C])
  then show ?case unfolding l c(1) by simp
qed

lemma upload_loop_all_fail:
  assumes "\<forall>i \<le> k. \<exists>e. upload_reply w (length (filter is_upload (calls w)) + i) = Raises e"
    and "r = a + int k + 1"
  shows "fst (upload_loop p r d a w) = None \<and>
         calls (snd (upload_loop p r d a w)) =
           calls w @ concat (replicate k [Upload_file p, Sleep d]) @ [Upload_file p] \<and>
         last (printed (snd (upload_loop p r d a w))) = Upload_gave_up"
  using assms
proof (induction k arbitrary: a w)
  case 0
  from "0.prems"(1) obtain e where
    e: "upload_reply w (length (filter is_upload (calls w))) = Raises e"
    by force
  from "0.prems"(2) have "a < r" "\<not> a + 1 < r" by auto
  with upload_attempt_raised [OF e, of p]
  have "upload_loop p r d a w =
      (None, py_print Upload_gave_up (py_print (Upload_error (a + 1) r e)
         (remote (Upload_file p) w)))"
    by (subst upload_loop.simps) (simp add: Let_def)
  then show ?case by (simp add: world_ops)
next
  case (Suc k)
  from Suc.prems(1) obtain e where
    e: "upload_reply w (length (filter is_upload (calls w))) = Raises e"
    by force
  let ?w3 = "sleep d (py_print (Retrying d) (py_print (Upload_error (a + 1) r e)
      (remote (Upload_file p) w)))"
  from Suc.prems(2) have "a < r" "a + 1 < r" by auto
  with upload_attempt_raised [OF e, of p]
  have l: "upload_loop p r d a w = upload_loop p r d (a + 1) ?w3"
    by (subst upload_loop.simps) (simp add: Let_def)
  have c: "calls ?w3 = calls w @ [Upload_file p, Sleep d]"
    "upload_reply ?w3 = upload_reply w"
    by (simp_all add: world_ops)
  then have n: "length (filter is_upload (calls ?w3)) = Suc (length (filter is_upload (calls w)))"
    by simp
  have A: "\<forall>i \<le> k. \<exists>e. upload_reply ?w3 (length (filter is_upload (calls ?w3)) + i) = Raises e"
  proof (intro allI impI)
    fix i assume "i \<le> k"
    then have "Suc i \<le> Suc k" by simp
    with Suc.prems(1) obtain e' where
      "upload_reply w (length (filter is_upload (calls w)) + Suc i) = Raises e'"
      by blast
    then show "\<exists>e. upload_reply ?w3 (length (filter is_upload (calls ?w3)) + i) = Raises e"
      unfolding n c(2) by simp
  qed
  from Suc.prems(2) have B: "r = a + 1 + int k + 1" by auto
  have "fst (upload_loop p r d (a + 1) ?w3) = None \<and>
      calls (snd (upload_loop p r d (a + 1) ?w3)) =
        calls ?w3 @ concat (replicate k [Upload_file p, Sleep d]) @ [Upload_file p] \<and>
      last (printed (snd (upload_loop p r d (a + 1) ?w3))) = Upload_gave_up"
    by (rule Suc.IH [OF A B])
  then show ?case unfolding l c(1) by simp
qed

text \<open>
  Claim C4. With the default retry count 3 and delay 5, \<open>upload_file_to_gemini\<close> makes at
  most three upload calls, and it prints that the upload failed after the retries only
  when it has made three. When the file exists and the first \<open>k < 3\<close> upload calls raise
  and the next one returns an active file, it returns that file after exactly \<open>k + 1\<close>
  upload calls with a sleep of 5 seconds between them: three upload calls for two failures.
  When the first three upload calls raise, it returns \<open>None\<close> after three upload calls and
  two sleeps, and says that the upload failed.
\<close>

theorem upload_retries:
  "length (filter is_upload (calls (snd (upload_file_to_gemini file_path 3 5 w)))) \<le>
     length (filter is_upload (calls w)) + 3 \<and>
   (Upload_gave_up \<notin> set (printed w) \<and>
    Upload_gave_up \<in> set (printed (snd (upload_file_to_gemini file_path 3 5 w))) \<longrightarrow>
      length (filter is_upload (calls (snd (upload_file_to_gemini file_path 3 5 w)))) =
        length (filter is_upload (calls w)) + 3) \<and>
   (path_exists w file_path \<longrightarrow>
      (\<forall>k f. k < 3 \<and>
         (\<forall>i < k. \<exists>e. upload_reply w (length (filter is_upload (calls w)) + i) = Raises e) \<and>
         upload_reply w (length (filter is_upload (calls w)) + k) = Returns f \<and>
         state_name f = ''ACTIVE'' \<longrightarrow>
           fst (upload_file_to_gemini file_path 3 5 w) = Some f \<and>
           calls (snd (upload_file_to_gemini file_path 3 5 w)) =
             calls w @ concat (replicate k [Upload_file file_path, Sleep 5]) @
             [Upload_file file_path]) \<and>
      ((\<forall>i < 3. \<exists>e. upload_reply w (length (filter is_upload (calls w)) + i) = Raises e) \<longrightarrow>
         fst (upload_file_to_gemini file_path 3 5 w) = None \<and>
         calls (snd (upload_file_to_gemini file_path 3 5 w)) =
           calls w @ [Upload_file file_path, Sleep 5, Upload_file file_path, Sleep 5,
                      Upload_file file_path] \<and>
         last (printed (snd (upload_file_to_gemini file_path 3 5 w))) = Upload_gave_up))"
proof -
  let ?w1 = "py_print (Uploading file_path) w"
  let ?n = "length (filter is_upload (calls w))"
  have fr: "calls ?w1 = calls w" "upload_reply ?w1 = upload_reply w"
    "printed ?w1 = printed w @ [Uploading file_path]" "path_exists ?w1 = path_exists w"
    by (simp_all add: py_print_def)
  have missing: "upload_file_to_gemini file_path 3 5 w =
      (None, py_print (File_not_found file_path) ?w1)" if "\<not> path_exists w file_path"
    using that by (simp add: upload_file_to_gemini_def Let_def fr)
  have found: "upload_file_to_gemini file_path 3 5 w = upload_loop file_path 3 5 0 ?w1"
    if "path_exists w file_path"
    using that by (simp add: upload_file_to_gemini_def Let_def fr)
  have bound: "length (filter is_upload (calls (snd (upload_file_to_gemini file_path 3 5 w)))) \<le>
      ?n + 3"
  proof (cases "path_exists w file_path")
    case True
    from upload_loop_attempts [of file_path 3 5 0 ?w1] show ?thesis
      by (simp add: found [OF True] fr)
  next
    case False
    then show ?thesis by (simp add: missing py_print_def)
  qed
  have gave_up: "length (filter is_upload (calls (snd (upload_file_to_gemini file_path 3 5 w)))) =
      ?n + 3"
    if "Upload_gave_up \<notin> set (printed w)"
      "Upload_gave_up \<in> set (printed (snd (upload_file_to_gemini file_path 3 5 w)))"
  proof (cases "path_exists w file_path")
    case True
    from upload_loop_attempts [of file_path 3 5 0 ?w1] that show ?thesis
      by (simp add: found [OF True] fr)
  next
    case False
    with that show ?thesis by (simp add: missing py_print_def)
  qed
  have success: "fst (upload_file_to_gemini file_path 3 5 w) = Some f \<and>
      calls (snd (upload_file_to_gemini file_path 3 5 w)) =
        calls w @ concat (replicate k [Upload_file file_path, Sleep 5]) @ [Upload_file file_path]"
    if "path_exists w file_path" "k < 3"
      "\<forall>i < k. \<exists>e. upload_reply w (?n + i) = Raises e"
      "upload_reply w (?n + k) = Returns f" "state_name f = ''ACTIVE''" for k f
  proof -
    from that(2) have "0 + int k < 3" by simp
    from upload_loop_retry_success [of k ?w1 f 0 3 file_path 5] that(3,4,5) this
    show ?thesis by (simp add: found [OF that(1)] fr)
  qed
  have failure: "fst (upload_file_to_gemini file_path 3 5 w) = None \<and>
      calls (snd (upload_file_to_gemini file_path 3 5 w)) =
        calls w @ [Upload_file file_path, Sleep 5, Upload_file file_path, Sleep 5,
                   Upload_file file_path] \<and>
      last (printed (snd (upload_file_to_gemini file_path 3 5 w))) = Upload_gave_up"
    if "path_exists w file_path" "\<forall>i < 3. \<exists>e. upload_reply w (?n + i) = Raises e"
  proof -
    from that(2) have "\<forall>i \<le> 2. \<exists>e. upload_reply w (?n + i) = Raises e" by simp
    with upload_loop_all_fail [of 2 ?w1 3 0 file_path 5]
    show ?thesis by (simp add: found [OF that(1)] fr numeral_2_eq_2)
  qed
  from bound gave_up success failure show ?thesis by blast
qed

text \<open>
  The theorem on a service whose first two uploads fail, and on one whose uploads all fail.
\<close>

theorem upload_retries_witness:
  "fst (upload_file_to_gemini (ascii ''doc.pdf'') 3 5 third_time_lucky) =
     Some (uploaded_number 2) \<and>
   calls (snd (upload_file_to_gemini (ascii ''doc.pdf'') 3 5 third_time_lucky)) =
     [Upload_file (ascii ''doc.pdf''), Sleep 5, Upload_file (ascii ''doc.pdf''), Sleep 5,
      Upload_file (ascii ''doc.pdf'')] \<and>
   fst (upload_file_to_gemini (ascii ''doc.pdf'') 3 5 upload_always_fails) = None \<and>
   calls (snd (upload_file_to_gemini (ascii ''doc.pdf'') 3 5 upload_always_fails)) =
     [Upload_file (ascii ''doc.pdf''), Sleep 5, Upload_file (ascii ''doc.pdf''), Sleep 5,
      Upload_file (ascii ''doc.pdf'')] \<and>
   last (printed (snd (upload_file_to_gemini (ascii ''doc.pdf'') 3 5 upload_always_fails))) =
     Upload_gave_up"
proof -
  have q: "path_exists upload_always_fails (ascii ''doc.pdf'')"
    and d: "calls upload_always_fails = []"
    by (simp_all add: upload_always_fails_def)
  have "\<forall>i < 3. \<exists>e. upload_reply upload_always_fails
      (length (filter is_upload (calls upload_always_fails)) + i) = Raises e"
    by (simp add: upload_always_fails_def)
  from upload_retries [of "ascii ''doc.pdf''" upload_always_fails, THEN conjunct2,
      THEN conjunct2, THEN mp, OF q, THEN conjunct2, THEN mp, OF this]
  have fails: "fst (upload_file_to_gemini (ascii ''doc.pdf'') 3 5 upload_always_fails) = None \<and>
      calls (snd (upload_file_to_gemini (ascii ''doc.pdf'') 3 5 upload_always_fails)) =
        [Upload_file (ascii ''doc.pdf''), Sleep 5, Upload_file (ascii ''doc.pdf''), Sleep 5,
         Upload_file (ascii ''doc.pdf'')] \<and>
      last (printed (snd (upload_file_to_gemini (ascii ''doc.pdf'') 3 5 upload_always_fails))) =
        Upload_gave_up"
    by (simp add: d)
  have p: "path_exists third_time_lucky (ascii ''doc.pdf'')"
    and c: "calls third_time_lucky = []"
    by (simp_all add: third_time_lucky_def)
  have "2 < (3::nat) \<and>
      (\<forall>i < 2. \<exists>e. upload_reply third_time_lucky
          (length (filter is_upload (calls third_time_lucky)) + i) = Raises e) \<and>
      upload_reply third_time_lucky (length (filter is_upload (calls third_time_lucky)) + 2) =
        Returns (uploaded_number 2) \<and>
      state_name (uploaded_number 2) = ''ACTIVE''"
    by (simp add: third_time_lucky_def uploaded_number_def)
  from upload_retries [of "ascii ''doc.pdf''" third_time_lucky, THEN conjunct2, THEN conjunct2,
      THEN mp, OF p, THEN conjunct1, THEN spec, THEN spec, THEN mp, OF this] fails
  show ?thesis by (simp add: c numeral_2_eq_2)
qed


text \<open>The definitions to unfold when the program is run on a given service.\<close>

lemmas program_eval =
  upload_and_analyze_def upload_file_to_gemini_def upload_loop.simps upload_attempt_def
  wait_while_processing.simps timeout_cleanup_def failed_cleanup_def
  analyze_document_def try_finally_def try_except_def analyze_try_def analyze_except_def
  analyze_finally_def delete_uploaded_def py_prints_def parse_messages_def world_ops Let_def

text \<open>
  Claim C1 asks that every file that was uploaded is deleted exactly once before control
  returns. The program misses this when a poll of the state raises: the exception reaches
  the \<open>except\<close> clause of the retry loop, which uploads the file again and forgets the
  first one. On the service \<open>poll_fails\<close> the first upload returns the file \<open>files/0\<close>, the
  poll raises, the second upload returns \<open>files/1\<close>, and the analysis succeeds; the only
  delete call is for \<open>files/1\<close>, and \<open>files/0\<close> is never deleted.
\<close>

theorem poll_failure_leaks_upload:
  "upload_reply poll_fails 0 = Returns (uploaded_number 0) \<and>
   name (uploaded_number 0) = ascii ''files/0'' \<and>
   fst (upload_and_analyze (ascii ''doc.pdf'') (ascii ''full'') (ascii ''arabic'') poll_fails) =
     Some (Inr (Some (ascii ''HELLO''), None)) \<and>
   filter (\<lambda>c. \<not> is_generate c)
     (calls (snd (upload_and_analyze (ascii ''doc.pdf'') (ascii ''full'') (ascii ''arabic'')
        poll_fails))) =
     [Upload_file (ascii ''doc.pdf''), Sleep 15, Get_file (ascii ''files/0''), Sleep 5,
      Upload_file (ascii ''doc.pdf''), Delete_file (ascii ''files/1'')]"
  by (simp add: poll_fails_def uploaded_number_def hello_response_def program_eval parser_eval)

end
